theory Spec2Isabelle
  imports Main "HOL-Library.Word"
begin

unbundle bit_operations_syntax

text \<open>
  The block read-and-write probe \<^verbatim>\<open>f3brew\<close>: it stamps every sector of a range of blocks
  with the sector's own offset and a chain of pseudo-random words, resets the device,
  reads the blocks back and reports every sector that does not carry its stamp. The
  theory embeds \<^verbatim>\<open>src/f3brew.c\<close> function by function and proves the properties the
  specification states of it.
\<close>

section \<open>Machine data\<close>

type_synonym u64 = "64 word"
type_synonym u8 = "8 word"

text \<open>
  A buffer (\<^verbatim>\<open>void *buf\<close>, \<^verbatim>\<open>char *stamp_blk\<close>, \<^verbatim>\<open>const char *sector\<close>) is the list of
  the bytes it points to; a pointer into it is an index.
\<close>

type_synonym buffer = "u8 list"

text \<open>
  Modelled from the spec: the constant \<^verbatim>\<open>SECTOR_SIZE\<close> is declared in a header that is not
  among the sources; the spec fixes the sector at 512 bytes.
\<close>

definition SECTOR_SIZE :: nat where
  "SECTOR_SIZE = 512"

definition TOLERANCE :: int where
  "TOLERANCE = 2"

text \<open>
  \<^verbatim>\<open>memmove(p, &x, sizeof(x))\<close> and \<^verbatim>\<open>*((uint64_t *) p)\<close> for a 64-bit \<^verbatim>\<open>x\<close>: eight bytes in
  the byte order of the host, least significant byte first. The store and the load use
  the same order, which is all the results below depend on.
\<close>

fun store_bytes :: "nat \<Rightarrow> u64 \<Rightarrow> u8 list" where
  "store_bytes 0 w = []"
| "store_bytes (Suc n) w = ucast w # store_bytes n (drop_bit 8 w)"

fun load_bytes :: "u8 list \<Rightarrow> u64" where
  "load_bytes [] = 0"
| "load_bytes (b # bs) = ucast b OR push_bit 8 (load_bytes bs)"

definition store_u64 :: "u64 \<Rightarrow> u8 list" where
  "store_u64 w = store_bytes 8 w"

text \<open>
  Writing \<open>src\<close> at index \<open>p\<close> of a buffer. The callers write inside the buffer
  (\<open>p + length src \<le> length buf\<close>); C leaves a write past the end undefined.
\<close>

definition memmove :: "buffer \<Rightarrow> nat \<Rightarrow> u8 list \<Rightarrow> buffer" where
  "memmove buf p src = take p buf @ src @ drop (p + length src) buf"

text \<open>Reading a 64-bit word at index \<open>p\<close>.\<close>

definition load_u64 :: "buffer \<Rightarrow> nat \<Rightarrow> u64" where
  "load_u64 buf p = load_bytes (take 8 (drop p buf))"

text \<open>
  A failed \<^verbatim>\<open>assert\<close> aborts the program; each assertion of the source has a name. The
  program is taken as built with its assertions on: the reset of \<^verbatim>\<open>main\<close> is the argument
  of one.
\<close>

datatype failure =
    Assert_size_positive
  | Assert_size_sector_multiple
  | Assert_sector_holds_offset_and_word
  | Assert_sector_whole_words
  | Assert_at_next_sector
  | Assert_block_sector_multiple
  | Assert_dev
  | Assert_reset

section \<open>The pattern writer: \<^verbatim>\<open>fill_buffer\<close>\<close>

text \<open>
  \<^verbatim>\<open>random_number\<close> is declared in a header that is not among the sources; every function
  that calls it takes it as its first argument.

  The inner \<^verbatim>\<open>for\<close> loop of \<^verbatim>\<open>fill_buffer\<close>; it returns the buffer, \<open>p\<close> and \<open>rn\<close>.
\<close>

function fill_sector_words ::
  "(u64 \<Rightarrow> u64) \<Rightarrow> buffer \<Rightarrow> nat \<Rightarrow> nat \<Rightarrow> u64 \<Rightarrow> buffer \<times> nat \<times> u64" where
  "fill_sector_words random_number buf p ptr_next_sector rn =
     (if p < ptr_next_sector then
        fill_sector_words random_number
          (memmove buf p (store_u64 (random_number rn))) (p + 8) ptr_next_sector
          (random_number rn)
      else (buf, p, rn))"
  by pat_completeness auto
termination
  by (relation "measure (\<lambda>(f, buf, p, nxt, rn). nxt - p)") auto

text \<open>The outer \<^verbatim>\<open>while\<close> loop of \<^verbatim>\<open>fill_buffer\<close>.\<close>

function fill_sectors ::
  "(u64 \<Rightarrow> u64) \<Rightarrow> buffer \<Rightarrow> nat \<Rightarrow> nat \<Rightarrow> u64 \<Rightarrow> failure + (buffer \<times> u64)" where
  "fill_sectors random_number buf p ptr_end offset =
     (if p < ptr_end then
        (case fill_sector_words random_number (memmove buf p (store_u64 offset))
                (p + 8) (p + SECTOR_SIZE) offset of
           (buf', p', rn) \<Rightarrow>
             if p' \<noteq> p + SECTOR_SIZE then Inl Assert_at_next_sector
             else fill_sectors random_number buf' p' ptr_end (offset + of_nat SECTOR_SIZE))
      else Inr (buf, offset))"
  by pat_completeness auto
termination
  by (relation "measure (\<lambda>(f, buf, p, ptr_end, offset). ptr_end - p)")
     (auto simp: SECTOR_SIZE_def)

definition fill_buffer ::
  "(u64 \<Rightarrow> u64) \<Rightarrow> buffer \<Rightarrow> nat \<Rightarrow> u64 \<Rightarrow> failure + (buffer \<times> u64)" where
  "fill_buffer random_number buf sz offset =
     (if \<not> sz > 0 then Inl Assert_size_positive
      else if \<not> sz mod SECTOR_SIZE = 0 then Inl Assert_size_sector_multiple
      else if \<not> SECTOR_SIZE \<ge> 8 + 8 then Inl Assert_sector_holds_offset_and_word
      else if \<not> (SECTOR_SIZE - 8) mod 8 = 0 then Inl Assert_sector_whole_words
      else fill_sectors random_number buf 0 sz offset)"

section \<open>The validator: \<^verbatim>\<open>validate_sector\<close>\<close>

text \<open>The lines that \<^verbatim>\<open>validate_sector\<close> prints.\<close>

datatype diagnostic =
    Changed_sector u64
  | BAD_matching_sector u64
  | Overwritten_sector u64 u64
  | Overwritten_and_changed_sector u64 u64

text \<open>The counting loop of \<^verbatim>\<open>validate_sector\<close>; it returns \<open>error_count\<close>.\<close>

function count_errors ::
  "(u64 \<Rightarrow> u64) \<Rightarrow> buffer \<Rightarrow> nat \<Rightarrow> nat \<Rightarrow> u64 \<Rightarrow> int \<Rightarrow> int" where
  "count_errors random_number sector p ptr_end rn error_count =
     (if error_count \<le> TOLERANCE \<and> p < ptr_end then
        count_errors random_number sector (p + 8) ptr_end (random_number rn)
          (if random_number rn \<noteq> load_u64 sector p then error_count + 1 else error_count)
      else error_count)"
  by pat_completeness auto
termination
  by (relation "measure (\<lambda>(f, sector, p, ptr_end, rn, ec). ptr_end - p)") auto

text \<open>
  The first half of \<^verbatim>\<open>validate_sector\<close>: the offset read from the sector and the number of
  chain words counted as wrong.
\<close>

definition sector_scan :: "(u64 \<Rightarrow> u64) \<Rightarrow> buffer \<Rightarrow> u64 \<times> int" where
  "sector_scan random_number sector =
     (let sector_offset = load_u64 sector 0
      in (sector_offset,
          count_errors random_number sector 8 SECTOR_SIZE sector_offset 0))"

text \<open>The second half: what is printed, as the list of lines (none or one).\<close>

definition report_sector :: "u64 \<Rightarrow> u64 \<Rightarrow> int \<Rightarrow> diagnostic list" where
  "report_sector expected_sector_offset sector_offset error_count =
     (if sector_offset = expected_sector_offset then
        (if error_count = 0 then []
         else if error_count \<le> TOLERANCE then [Changed_sector expected_sector_offset]
         else [BAD_matching_sector expected_sector_offset])
      else if error_count = 0 then
        [Overwritten_sector expected_sector_offset sector_offset]
      else if error_count \<le> TOLERANCE then
        [Overwritten_and_changed_sector expected_sector_offset sector_offset]
      else [])"

definition validate_sector :: "(u64 \<Rightarrow> u64) \<Rightarrow> u64 \<Rightarrow> buffer \<Rightarrow> diagnostic list" where
  "validate_sector random_number expected_sector_offset sector =
     (case sector_scan random_number sector of
        (sector_offset, error_count) \<Rightarrow>
          report_sector expected_sector_offset sector_offset error_count)"

text \<open>
  \<^verbatim>\<open>validate_block\<close>: the \<^verbatim>\<open>while\<close> loop over the sectors of a block. \<open>sector\<close> and
  \<open>stop_sector\<close> are offsets from \<open>probe_blk\<close>; the sector handed to \<open>validate_sector\<close> is
  what the pointer \<open>sector\<close> points to.
\<close>

function validate_sectors ::
  "(u64 \<Rightarrow> u64) \<Rightarrow> u64 \<Rightarrow> buffer \<Rightarrow> int \<Rightarrow> int \<Rightarrow> diagnostic list" where
  "validate_sectors random_number expected_sector_offset probe_blk sector stop_sector =
     (if sector < stop_sector then
        validate_sector random_number expected_sector_offset (drop (nat sector) probe_blk)
        @ validate_sectors random_number (expected_sector_offset + of_nat SECTOR_SIZE)
            probe_blk (sector + int SECTOR_SIZE) stop_sector
      else [])"
  by pat_completeness auto
termination
  by (relation "measure (\<lambda>(f, e, blk, sector, stop). nat (stop - sector))")
     (auto simp: SECTOR_SIZE_def)

definition validate_block ::
  "(u64 \<Rightarrow> u64) \<Rightarrow> u64 \<Rightarrow> buffer \<Rightarrow> int \<Rightarrow> failure + diagnostic list" where
  "validate_block random_number expected_sector_offset probe_blk block_size =
     (if \<not> block_size mod int SECTOR_SIZE = 0 then Inl Assert_block_sector_multiple
      else Inr (validate_sectors random_number expected_sector_offset probe_blk 0
                  (0 + block_size)))"

section \<open>The device\<close>

text \<open>
  The device library is not among the sources. Its operations are parameters: a device
  state of any type \<open>'d\<close> and the functions the program calls on it. An operation that
  changes the device returns the new state next to its return value; \<^verbatim>\<open>dev_read_block\<close>
  also returns the buffer it has filled.
\<close>

record 'd device_ops =
  dev_get_size_byte :: "'d \<Rightarrow> u64"
  dev_get_block_order :: "'d \<Rightarrow> int"
  dev_get_block_size :: "'d \<Rightarrow> int"
  dev_write_block :: "'d \<Rightarrow> buffer \<Rightarrow> u64 \<Rightarrow> int \<times> 'd"
  dev_read_block :: "'d \<Rightarrow> buffer \<Rightarrow> u64 \<Rightarrow> int \<times> buffer \<times> 'd"
  dev_reset :: "'d \<Rightarrow> int \<times> 'd"

text \<open>
  What the program does to the outside, in order: the calls on the device that change it
  or read it and the lines it prints. A write carries the block index, the buffer
  submitted and the return value; a read the block index, the buffer as the call left it
  and the return value.
\<close>

datatype event =
    Dev_write_block u64 buffer int
  | Warn_failed_writing u64
  | Dev_read_block u64 buffer int
  | Warn_failed_reading u64
  | Printed diagnostic
  | Dev_reset int
  | Print_header
  | Print_writing_blocks u64 u64
  | Print_reading_blocks u64 u64
  | Print_done
  | Free_device

text \<open>An \<^verbatim>\<open>int\<close> passed where a \<^verbatim>\<open>size_t\<close> is expected.\<close>

definition size_t_of_int :: "int \<Rightarrow> nat" where
  "size_t_of_int n = nat (n mod 2 ^ 64)"

text \<open>
  \<^verbatim>\<open>x << n\<close> and \<^verbatim>\<open>x >> n\<close> on a \<^verbatim>\<open>uint64_t\<close> with an \<^verbatim>\<open>int\<close> shift count. C defines them
  for \<open>0 \<le> n < 64\<close> only.
\<close>

definition shl :: "u64 \<Rightarrow> int \<Rightarrow> u64" where
  "shl x n = push_bit (nat n) x"

definition shr :: "u64 \<Rightarrow> int \<Rightarrow> u64" where
  "shr x n = drop_bit (nat n) x"

section \<open>The write pass: \<^verbatim>\<open>write_blocks\<close>\<close>

record 'd write_state =
  w_i :: u64
  w_sector_offset :: u64
  w_stamp_blk :: buffer
  w_dev :: 'd

text \<open>One turn of the \<^verbatim>\<open>for\<close> loop of \<^verbatim>\<open>write_blocks\<close>, \<^verbatim>\<open>i++\<close> included.\<close>

definition write_blocks_body ::
  "'d device_ops \<Rightarrow> (u64 \<Rightarrow> u64) \<Rightarrow> int \<Rightarrow> 'd write_state
     \<Rightarrow> event list \<times> (failure + 'd write_state)" where
  "write_blocks_body ops random_number block_size s =
     (case fill_buffer random_number (w_stamp_blk s) (size_t_of_int block_size)
             (w_sector_offset s) of
        Inl a \<Rightarrow> ([], Inl a)
      | Inr (blk, sector_offset) \<Rightarrow>
          (case dev_write_block ops (w_dev s) blk (w_i s) of
             (rc, dev) \<Rightarrow>
               (Dev_write_block (w_i s) blk rc
                  # (if rc \<noteq> 0 then [Warn_failed_writing (w_i s)] else []),
                Inr \<lparr>w_i = w_i s + 1, w_sector_offset = sector_offset,
                     w_stamp_blk = blk, w_dev = dev\<rparr>)))"

text \<open>
  The loop. It may run forever (\<^verbatim>\<open>i <= last_block\<close> holds for every \<open>i\<close> when
  \<open>last_block\<close> is the largest 64-bit value): \<open>None\<close> is not returning. It returns the
  events so far and either the failed assertion or the final state.
\<close>

partial_function (option) write_blocks_loop ::
  "'d device_ops \<Rightarrow> (u64 \<Rightarrow> u64) \<Rightarrow> int \<Rightarrow> u64 \<Rightarrow> 'd write_state \<Rightarrow> event list
     \<Rightarrow> (event list \<times> (failure + 'd write_state)) option" where
  "write_blocks_loop ops random_number block_size last_block s tr =
     (if w_i s \<le> last_block then
        (case write_blocks_body ops random_number block_size s of
           (evs, Inl a) \<Rightarrow> Some (tr @ evs, Inl a)
         | (evs, Inr s') \<Rightarrow>
             write_blocks_loop ops random_number block_size last_block s' (tr @ evs))
      else Some (tr, Inr s))"

definition write_blocks ::
  "'d device_ops \<Rightarrow> (u64 \<Rightarrow> u64) \<Rightarrow> buffer \<Rightarrow> 'd \<Rightarrow> u64 \<Rightarrow> u64
     \<Rightarrow> (event list \<times> (failure + 'd write_state)) option" where
  "write_blocks ops random_number stamp_blk dev first_block last_block =
     write_blocks_loop ops random_number (dev_get_block_size ops dev) last_block
       \<lparr>w_i = first_block,
        w_sector_offset = shl first_block (dev_get_block_order ops dev),
        w_stamp_blk = stamp_blk, w_dev = dev\<rparr> []"

section \<open>The read pass: \<^verbatim>\<open>read_blocks\<close>\<close>

record 'd read_state =
  r_i :: u64
  r_expected_sector_offset :: u64
  r_probe_blk :: buffer
  r_dev :: 'd

text \<open>One turn of the \<^verbatim>\<open>for\<close> loop of \<^verbatim>\<open>read_blocks\<close>, \<^verbatim>\<open>i++\<close> included.\<close>

definition read_blocks_body ::
  "'d device_ops \<Rightarrow> (u64 \<Rightarrow> u64) \<Rightarrow> int \<Rightarrow> 'd read_state
     \<Rightarrow> event list \<times> (failure + 'd read_state)" where
  "read_blocks_body ops random_number block_size s =
     (case dev_read_block ops (r_dev s) (r_probe_blk s) (r_i s) of
        (rc, blk, dev) \<Rightarrow>
          (let s' = \<lparr>r_i = r_i s + 1,
                     r_expected_sector_offset =
                       r_expected_sector_offset s + of_int block_size,
                     r_probe_blk = blk, r_dev = dev\<rparr>
           in if \<not> rc \<noteq> 0 then
                (case validate_block random_number (r_expected_sector_offset s) blk
                        block_size of
                   Inl a \<Rightarrow> ([Dev_read_block (r_i s) blk rc], Inl a)
                 | Inr ds \<Rightarrow> (Dev_read_block (r_i s) blk rc # map Printed ds, Inr s'))
              else ([Dev_read_block (r_i s) blk rc, Warn_failed_reading (r_i s)], Inr s')))"

partial_function (option) read_blocks_loop ::
  "'d device_ops \<Rightarrow> (u64 \<Rightarrow> u64) \<Rightarrow> int \<Rightarrow> u64 \<Rightarrow> 'd read_state \<Rightarrow> event list
     \<Rightarrow> (event list \<times> (failure + 'd read_state)) option" where
  "read_blocks_loop ops random_number block_size last_block s tr =
     (if r_i s \<le> last_block then
        (case read_blocks_body ops random_number block_size s of
           (evs, Inl a) \<Rightarrow> Some (tr @ evs, Inl a)
         | (evs, Inr s') \<Rightarrow>
             read_blocks_loop ops random_number block_size last_block s' (tr @ evs))
      else Some (tr, Inr s))"

definition read_blocks ::
  "'d device_ops \<Rightarrow> (u64 \<Rightarrow> u64) \<Rightarrow> buffer \<Rightarrow> 'd \<Rightarrow> u64 \<Rightarrow> u64
     \<Rightarrow> (event list \<times> (failure + 'd read_state)) option" where
  "read_blocks ops random_number probe_blk dev first_block last_block =
     read_blocks_loop ops random_number (dev_get_block_size ops dev) last_block
       \<lparr>r_i = first_block,
        r_expected_sector_offset = shl first_block (dev_get_block_order ops dev),
        r_probe_blk = probe_blk, r_dev = dev\<rparr> []"

section \<open>The two passes as \<^verbatim>\<open>main\<close> runs them\<close>

text \<open>
  \<^verbatim>\<open>test_write_blocks\<close> and \<^verbatim>\<open>test_read_blocks\<close>. \<open>blk\<close> is the block-sized buffer at the
  aligned address inside the array \<^verbatim>\<open>stack\<close>; its first contents are whatever the stack
  holds. They return the device as the pass left it.
\<close>

definition test_write_blocks ::
  "'d device_ops \<Rightarrow> (u64 \<Rightarrow> u64) \<Rightarrow> buffer \<Rightarrow> 'd \<Rightarrow> u64 \<Rightarrow> u64
     \<Rightarrow> (event list \<times> (failure + 'd)) option" where
  "test_write_blocks ops random_number blk dev first_block last_block =
     (case write_blocks ops random_number blk dev first_block last_block of
        None \<Rightarrow> None
      | Some (tr, Inl a) \<Rightarrow> Some (Print_writing_blocks first_block last_block # tr, Inl a)
      | Some (tr, Inr s) \<Rightarrow>
          Some (Print_writing_blocks first_block last_block # tr @ [Print_done],
                Inr (w_dev s)))"

definition test_read_blocks ::
  "'d device_ops \<Rightarrow> (u64 \<Rightarrow> u64) \<Rightarrow> buffer \<Rightarrow> 'd \<Rightarrow> u64 \<Rightarrow> u64
     \<Rightarrow> (event list \<times> (failure + 'd)) option" where
  "test_read_blocks ops random_number blk dev first_block last_block =
     (case read_blocks ops random_number blk dev first_block last_block of
        None \<Rightarrow> None
      | Some (tr, Inl a) \<Rightarrow> Some (Print_reading_blocks first_block last_block # tr, Inl a)
      | Some (tr, Inr s) \<Rightarrow>
          Some (Print_reading_blocks first_block last_block # tr @ [Print_done],
                Inr (r_dev s)))"

section \<open>The command line: \<^verbatim>\<open>struct args\<close> and \<^verbatim>\<open>parse_opt\<close>\<close>

record args =
  filename :: "string option"
  debug :: bool
  keep_file :: bool
  reset_type :: int
  test_write :: bool
  test_read :: bool
  real_size_byte :: u64
  fake_size_byte :: u64
  wrap :: int
  block_order :: int
  first_block :: u64
  last_block :: u64

text \<open>
  The keys \<^verbatim>\<open>parse_opt\<close> is called with: an option letter, or one of the parser's own
  keys. \<open>ARGP_KEY_other\<close> stands for the parser's keys the \<^verbatim>\<open>switch\<close> does not name.
\<close>

datatype argp_key =
    Key char
  | ARGP_KEY_INIT
  | ARGP_KEY_ARG
  | ARGP_KEY_END
  | ARGP_KEY_other

text \<open>
  \<^verbatim>\<open>argp_error\<close> prints its message and ends the program; otherwise \<^verbatim>\<open>parse_opt\<close> returns
  0 with \<^verbatim>\<open>args\<close> updated, or \<^verbatim>\<open>ARGP_ERR_UNKNOWN\<close>.
\<close>

datatype parse_result =
    Parsed args
  | Argp_error string
  | ARGP_ERR_UNKNOWN

text \<open>
  What \<^verbatim>\<open>parse_opt\<close> uses and the sources do not hold: \<^verbatim>\<open>arg_to_ll_bytes\<close> (\<open>Inl\<close> is the
  message it ends the program with), the constant \<^verbatim>\<open>RT_MAX\<close> and \<^verbatim>\<open>dev_param_valid\<close>.
\<close>

record parse_env =
  arg_to_ll_bytes :: "string \<Rightarrow> string + int"
  RT_MAX :: int
  dev_param_valid :: "u64 \<Rightarrow> u64 \<Rightarrow> int \<Rightarrow> int \<Rightarrow> bool"

definition with_ll ::
  "parse_env \<Rightarrow> string \<Rightarrow> (int \<Rightarrow> parse_result) \<Rightarrow> parse_result" where
  "with_ll env arg k = (case arg_to_ll_bytes env arg of Inl msg \<Rightarrow> Argp_error msg | Inr ll \<Rightarrow> k ll)"

definition parse_opt :: "parse_env \<Rightarrow> argp_key \<Rightarrow> string \<Rightarrow> args \<Rightarrow> parse_result" where
  "parse_opt env key arg a =
     (case key of
        Key c \<Rightarrow>
          if c = CHR ''d'' then Parsed (a\<lparr>debug := True\<rparr>)
          else if c = CHR ''r'' then
            with_ll env arg (\<lambda>ll.
              if ll < 0 then Argp_error ''Real size must be greater or equal to zero''
              else Parsed (a\<lparr>real_size_byte := of_int ll, debug := True\<rparr>))
          else if c = CHR ''f'' then
            with_ll env arg (\<lambda>ll.
              if ll < 0 then Argp_error ''Fake size must be greater or equal to zero''
              else Parsed (a\<lparr>fake_size_byte := of_int ll, debug := True\<rparr>))
          else if c = CHR ''w'' then
            with_ll env arg (\<lambda>ll.
              if ll < 0 \<or> ll \<ge> 64 then Argp_error ''Wrap must be in the interval [0, 63]''
              else Parsed (a\<lparr>wrap := ll, debug := True\<rparr>))
          else if c = CHR ''b'' then
            with_ll env arg (\<lambda>ll.
              if ll \<noteq> 0 \<and> (ll < 9 \<or> ll > 20)
              then Argp_error ''Block order must be in the interval [9, 20] or be zero''
              else Parsed (a\<lparr>block_order := ll, debug := True\<rparr>))
          else if c = CHR ''k'' then Parsed (a\<lparr>keep_file := True, debug := True\<rparr>)
          else if c = CHR ''s'' then
            with_ll env arg (\<lambda>ll.
              if ll < 0 \<or> ll \<ge> RT_MAX env
              then Argp_error ''Reset type must be in the interval [0, RT_MAX - 1]''
              else Parsed (a\<lparr>reset_type := ll\<rparr>))
          else if c = CHR ''h'' then
            with_ll env arg (\<lambda>ll.
              if ll < 0 then Argp_error ''The first block must be greater or equal to zero''
              else Parsed (a\<lparr>first_block := of_int ll\<rparr>))
          else if c = CHR ''e'' then
            with_ll env arg (\<lambda>ll.
              if ll < 0 then Argp_error ''The last block must be greater or equal to zero''
              else Parsed (a\<lparr>last_block := of_int ll\<rparr>))
          else if c = CHR ''W'' then Parsed (a\<lparr>test_write := False\<rparr>)
          else if c = CHR ''R'' then Parsed (a\<lparr>test_read := False\<rparr>)
          else ARGP_ERR_UNKNOWN
      | ARGP_KEY_INIT \<Rightarrow> Parsed (a\<lparr>filename := None\<rparr>)
      | ARGP_KEY_ARG \<Rightarrow>
          if filename a \<noteq> None
          then Argp_error ''Wrong number of arguments; only one is allowed''
          else Parsed (a\<lparr>filename := Some arg\<rparr>)
      | ARGP_KEY_END \<Rightarrow>
          if filename a = None then Argp_error ''The disk device was not specified''
          else if debug a \<and>
                  \<not> dev_param_valid env (real_size_byte a) (fake_size_byte a) (wrap a)
                      (block_order a)
          then Argp_error ''The debugging parameters are not valid''
          else if first_block a > last_block a
          then Argp_error ''The first block parameter must be less or equal to the last block parameter''
          else Parsed a
      | ARGP_KEY_other \<Rightarrow> ARGP_ERR_UNKNOWN)"

section \<open>The probe: \<^verbatim>\<open>main\<close>\<close>

text \<open>The defaults \<^verbatim>\<open>main\<close> starts from; \<^verbatim>\<open>RT_DEFAULT\<close> is not among the sources.\<close>

definition default_args :: "int \<Rightarrow> args" where
  "default_args RT_DEFAULT =
     \<lparr>filename = None, debug = False, keep_file = False, reset_type = RT_DEFAULT,
      test_write = True, test_read = True,
      real_size_byte = push_bit 31 1, fake_size_byte = push_bit 34 1,
      wrap = 31, block_order = 0, first_block = 0, last_block = - 1\<rparr>"

text \<open>The clamping of the range in \<^verbatim>\<open>main\<close>.\<close>

definition clamp_blocks :: "'d device_ops \<Rightarrow> 'd \<Rightarrow> args \<Rightarrow> args" where
  "clamp_blocks ops dev a =
     (let very_last_block = shr (dev_get_size_byte ops dev) (dev_get_block_order ops dev);
          a1 = (if first_block a > very_last_block
                then a\<lparr>first_block := very_last_block\<rparr> else a);
          a2 = (if last_block a1 > very_last_block
                then a1\<lparr>last_block := very_last_block\<rparr> else a1)
      in a2)"

text \<open>The reset between the passes, with its \<^verbatim>\<open>assert\<close>.\<close>

definition reset_between :: "'d device_ops \<Rightarrow> args \<Rightarrow> 'd \<Rightarrow> event list \<times> (failure + 'd)" where
  "reset_between ops a dev =
     (if test_write a \<and> test_read a then
        (case dev_reset ops dev of
           (rc, dev') \<Rightarrow> ([Dev_reset rc], if \<not> \<not> rc \<noteq> 0 then Inl Assert_reset else Inr dev'))
      else ([], Inr dev))"

text \<open>
  \<^verbatim>\<open>main\<close> from the line after \<^verbatim>\<open>argp_parse\<close>: \<open>a\<close> is \<^verbatim>\<open>args\<close> as the parser left it,
  \<open>created\<close> what \<^verbatim>\<open>create_block_device\<close> or \<^verbatim>\<open>create_file_device\<close> returned (\<open>None\<close> for
  \<^verbatim>\<open>NULL\<close>), \<open>wblk\<close> and \<open>rblk\<close> the buffers of the two passes. It returns the events and
  either the failed assertion or the exit status; \<open>None\<close> is not returning.
\<close>

definition main ::
  "'d device_ops \<Rightarrow> (u64 \<Rightarrow> u64) \<Rightarrow> args \<Rightarrow> 'd option \<Rightarrow> buffer \<Rightarrow> buffer
     \<Rightarrow> (event list \<times> (failure + int)) option" where
  "main ops random_number a created wblk rblk =
     (case created of
        None \<Rightarrow> Some ([Print_header], Inl Assert_dev)
      | Some dev \<Rightarrow>
          (let a' = clamp_blocks ops dev a in
           case (if test_write a'
                 then test_write_blocks ops random_number wblk dev
                        (first_block a') (last_block a')
                 else Some ([], Inr dev)) of
             None \<Rightarrow> None
           | Some (tr_w, Inl x) \<Rightarrow> Some (Print_header # tr_w, Inl x)
           | Some (tr_w, Inr dev_w) \<Rightarrow>
               (case reset_between ops a' dev_w of
                  (tr_s, Inl x) \<Rightarrow> Some (Print_header # tr_w @ tr_s, Inl x)
                | (tr_s, Inr dev_s) \<Rightarrow>
                    (case (if test_read a'
                           then test_read_blocks ops random_number rblk dev_s
                                  (first_block a') (last_block a')
                           else Some ([], Inr dev_s)) of
                       None \<Rightarrow> None
                     | Some (tr_r, Inl x) \<Rightarrow> Some (Print_header # tr_w @ tr_s @ tr_r, Inl x)
                     | Some (tr_r, Inr dev_r) \<Rightarrow>
                         Some (Print_header # tr_w @ tr_s @ tr_r @ [Free_device],
                               Inr 0)))))"

section \<open>The stamp and the counts, as the specification words them\<close>

text \<open>The \<open>k\<close> chain words that follow \<open>rn\<close>.\<close>

fun chain :: "(u64 \<Rightarrow> u64) \<Rightarrow> nat \<Rightarrow> u64 \<Rightarrow> u64 list" where
  "chain f 0 rn = []"
| "chain f (Suc k) rn = f rn # chain f k (f rn)"

text \<open>
  The stamp of a sector: its offset in the first 8 bytes, then \<open>(512 - 8) / 8 = 63\<close>
  chained words, the first one derived from the offset.
\<close>

definition stamp :: "(u64 \<Rightarrow> u64) \<Rightarrow> u64 \<Rightarrow> buffer" where
  "stamp f offset = concat (map store_u64 (offset # chain f 63 offset))"

text \<open>\<open>n\<close> stamped sectors in a row, the first one for \<open>offset\<close>.\<close>

definition pattern :: "(u64 \<Rightarrow> u64) \<Rightarrow> nat \<Rightarrow> u64 \<Rightarrow> buffer" where
  "pattern f n offset =
     concat (map (\<lambda>j. stamp f (offset + of_nat (j * SECTOR_SIZE))) [0..<n])"

text \<open>
  The reference count: every word of \<open>ws\<close> that differs from the chain seeded with \<open>rn\<close>,
  with no early exit.
\<close>

fun mismatches :: "(u64 \<Rightarrow> u64) \<Rightarrow> u64 \<Rightarrow> u64 list \<Rightarrow> int" where
  "mismatches f rn [] = 0"
| "mismatches f rn (w # ws) = (if f rn \<noteq> w then 1 else 0) + mismatches f (f rn) ws"

text \<open>The 63 words of a sector after its first 8 bytes.\<close>

definition sector_words :: "buffer \<Rightarrow> u64 list" where
  "sector_words sector = map (\<lambda>k. load_u64 sector (8 + 8 * k)) [0..<63]"

text \<open>
  The reference validator: \<^verbatim>\<open>validate_sector\<close> with a loop that counts every mismatching
  word of the sector, with no early exit.
\<close>

function count_all_errors ::
  "(u64 \<Rightarrow> u64) \<Rightarrow> buffer \<Rightarrow> nat \<Rightarrow> nat \<Rightarrow> u64 \<Rightarrow> int \<Rightarrow> int" where
  "count_all_errors random_number sector p ptr_end rn error_count =
     (if p < ptr_end then
        count_all_errors random_number sector (p + 8) ptr_end (random_number rn)
          (if random_number rn \<noteq> load_u64 sector p then error_count + 1 else error_count)
      else error_count)"
  by pat_completeness auto
termination
  by (relation "measure (\<lambda>(f, sector, p, ptr_end, rn, ec). ptr_end - p)") auto

definition validate_sector_reference ::
  "(u64 \<Rightarrow> u64) \<Rightarrow> u64 \<Rightarrow> buffer \<Rightarrow> diagnostic list" where
  "validate_sector_reference random_number expected_sector_offset sector =
     report_sector expected_sector_offset (load_u64 sector 0)
       (count_all_errors random_number sector 8 SECTOR_SIZE (load_u64 sector 0) 0)"

text \<open>The number of chain words in which two sectors differ.\<close>

definition differing_words :: "buffer \<Rightarrow> buffer \<Rightarrow> nat" where
  "differing_words s t =
     length (filter (\<lambda>(a, b). a \<noteq> b) (zip (sector_words s) (sector_words t)))"

section \<open>Traces\<close>

text \<open>
  The first \<open>n\<close> turns of a loop with the given body, from state \<open>s\<close>: the events of all
  of them and the state after the last one, or the assertion a turn failed.
\<close>

fun turns :: "('s \<Rightarrow> event list \<times> (failure + 's)) \<Rightarrow> nat \<Rightarrow> 's \<Rightarrow> event list \<times> (failure + 's)" where
  "turns body 0 s = ([], Inr s)"
| "turns body (Suc n) s =
     (case body s of
        (evs, Inl a) \<Rightarrow> (evs, Inl a)
      | (evs, Inr s') \<Rightarrow> (case turns body n s' of (evs', r) \<Rightarrow> (evs @ evs', r)))"

text \<open>The blocks handed to \<^verbatim>\<open>dev_write_block\<close>, in order: index and buffer.\<close>

fun written :: "event list \<Rightarrow> (u64 \<times> buffer) list" where
  "written [] = []"
| "written (Dev_write_block i blk rc # es) = (i, blk) # written es"
| "written (e # es) = written es"

text \<open>The indices of the writes that returned non-zero, and the indices warned about.\<close>

fun write_failures :: "event list \<Rightarrow> u64 list" where
  "write_failures [] = []"
| "write_failures (Dev_write_block i blk rc # es) =
     (if rc \<noteq> 0 then i # write_failures es else write_failures es)"
| "write_failures (e # es) = write_failures es"

fun write_warnings :: "event list \<Rightarrow> u64 list" where
  "write_warnings [] = []"
| "write_warnings (Warn_failed_writing i # es) = i # write_warnings es"
| "write_warnings (e # es) = write_warnings es"

text \<open>The calls of \<^verbatim>\<open>dev_read_block\<close>, in order: index, buffer left and return value.\<close>

fun reads :: "event list \<Rightarrow> (u64 \<times> buffer \<times> int) list" where
  "reads [] = []"
| "reads (Dev_read_block i blk rc # es) = (i, blk, rc) # reads es"
| "reads (e # es) = reads es"

text \<open>
  What the read pass is to emit for one read of a pass that starts at block \<open>first_blk\<close>
  with expected offset \<open>first_offset\<close>: the read itself, then for a read that succeeded
  the diagnostics of the block's sectors against the expected offset
  \<open>first_offset + (i - first_blk) * block_size\<close>, for a read that failed the warning.
\<close>

definition read_report ::
  "(u64 \<Rightarrow> u64) \<Rightarrow> int \<Rightarrow> u64 \<Rightarrow> u64 \<Rightarrow> u64 \<times> buffer \<times> int \<Rightarrow> event list" where
  "read_report f block_size first_offset first_blk r =
     (case r of
        (i, blk, rc) \<Rightarrow>
          Dev_read_block i blk rc
            # (if rc = 0
               then map Printed
                      (validate_sectors f
                         (first_offset + (i - first_blk) * of_int block_size)
                         blk 0 block_size)
               else [Warn_failed_reading i]))"

text \<open>The return values of the calls of \<^verbatim>\<open>dev_reset\<close>, in order.\<close>

fun resets :: "event list \<Rightarrow> int list" where
  "resets [] = []"
| "resets (Dev_reset rc # es) = rc # resets es"
| "resets (e # es) = resets es"

text \<open>
  The order of a probe: device writes only before the reset, at most one reset, device
  reads only after it.
\<close>

datatype phase = Writing | Reading

fun probe_order :: "phase \<Rightarrow> event list \<Rightarrow> bool" where
  "probe_order ph [] = True"
| "probe_order ph (Dev_write_block i blk rc # es) = (ph = Writing \<and> probe_order Writing es)"
| "probe_order ph (Dev_reset rc # es) = (ph = Writing \<and> probe_order Reading es)"
| "probe_order ph (Dev_read_block i blk rc # es) = (ph = Reading \<and> probe_order Reading es)"
| "probe_order ph (e # es) = probe_order ph es"

text \<open>
  The geometry the specification requires of a device: a block order from 9 to 20 and a
  block size of two to that power.
\<close>

definition block_geometry :: "'d device_ops \<Rightarrow> 'd \<Rightarrow> bool" where
  "block_geometry ops dev =
     (9 \<le> dev_get_block_order ops dev \<and> dev_get_block_order ops dev \<le> 20
      \<and> dev_get_block_size ops dev = 2 ^ nat (dev_get_block_order ops dev))"

section \<open>Sample inputs\<close>

text \<open>A generator to run the functions on: a linear congruential step.\<close>

definition lcg :: "u64 \<Rightarrow> u64" where
  "lcg x = x * 4294967311 + 17"

text \<open>The chain words of the stamp for offset 1024, with two and with three of them zeroed.\<close>

definition two_changed :: "u64 list" where
  "two_changed = (chain lcg 63 1024)[1 := 0, 62 := 0]"

definition three_changed :: "u64 list" where
  "three_changed = (chain lcg 63 1024)[1 := 0, 30 := 0, 62 := 0]"

text \<open>
  A device of four blocks of 512 bytes whose state counts the calls; its write of block 1
  and its read of block 2 fail.
\<close>

definition flaky_device :: "nat device_ops" where
  "flaky_device =
     \<lparr>dev_get_size_byte = (\<lambda>d. 2048),
      dev_get_block_order = (\<lambda>d. 9),
      dev_get_block_size = (\<lambda>d. 512),
      dev_write_block = (\<lambda>d buf i. (if i = 1 then 1 else 0, d + 1)),
      dev_read_block = (\<lambda>d buf i. (if i = 2 then 1 else 0, buf, d + 1)),
      dev_reset = (\<lambda>d. (0, d + 1))\<rparr>"

text \<open>The same device with a reset that fails.\<close>

definition stuck_device :: "nat device_ops" where
  "stuck_device = flaky_device\<lparr>dev_reset := (\<lambda>d. (1, d))\<rparr>"

section \<open>Bytes and words\<close>

declare fill_sector_words.simps [simp del] fill_sectors.simps [simp del]
  count_errors.simps [simp del] validate_sectors.simps [simp del]

lemma length_store_bytes: "length (store_bytes n w) = n"
  by (induction n arbitrary: w) auto

lemma length_store_u64 [simp]: "length (store_u64 w) = 8"
  by (simp add: store_u64_def length_store_bytes)

lemma load_store_bytes: "load_bytes (store_bytes n w) = take_bit (8 * n) w"
proof (induction n arbitrary: w)
  case 0 then show ?case by simp
next
  case (Suc n)
  show ?case
    apply (simp add: Suc.IH[of "drop_bit 8 w"])
    apply (rule bit_eqI)
    apply (auto simp add: bit_simps)
    done
qed

lemma load_store_u64: "load_bytes (store_u64 w) = w"
  by (simp add: store_u64_def load_store_bytes take_bit_word_eq_self)

lemma length_chain [simp]: "length (chain f k rn) = k"
  by (induction k arbitrary: rn) auto

lemma length_words_bytes [simp]: "length (concat (map store_u64 ws)) = 8 * length ws"
  by (induction ws) auto

lemma length_stamp [simp]: "length (stamp f offset) = 512"
  by (simp add: stamp_def)

lemma load_u64_at: "load_u64 (pre @ store_u64 w @ rest) (length pre) = w"
  by (simp add: load_u64_def load_store_u64)

lemma fill_sector_words_chain:
  "p + 8 * k = nxt \<Longrightarrow> nxt \<le> length buf \<Longrightarrow>
   fill_sector_words f buf p nxt rn =
     (take p buf @ concat (map store_u64 (chain f k rn)) @ drop nxt buf, nxt, (f ^^ k) rn)"
proof (induction k arbitrary: buf p rn)
  case 0
  then show ?case by (simp add: fill_sector_words.simps)
next
  case (Suc k)
  let ?buf = "memmove buf p (store_u64 (f rn))"
  have len: "length ?buf = length buf" using Suc.prems by (simp add: memmove_def)
  have "fill_sector_words f buf p nxt rn = fill_sector_words f ?buf (p + 8) nxt (f rn)"
    using Suc.prems by (subst fill_sector_words.simps) simp
  also have "\<dots> = (take (p + 8) ?buf @ concat (map store_u64 (chain f k (f rn))) @ drop nxt ?buf,
      nxt, (f ^^ k) (f rn))"
    using Suc.prems len by (intro Suc.IH) auto
  also have "take (p + 8) ?buf = take p buf @ store_u64 (f rn)"
    using Suc.prems by (simp add: memmove_def)
  also have "drop nxt ?buf = drop nxt buf"
    using Suc.prems by (simp add: memmove_def)
  finally show ?case by (simp add: funpow_swap1)
qed


lemma fill_one_sector:
  assumes "p + 512 \<le> length buf"
  shows "fill_sector_words f (memmove buf p (store_u64 offset)) (p + 8) (p + 512) offset =
     (take p buf @ stamp f offset @ drop (p + 512) buf, p + 512, (f ^^ 63) offset)"
proof -
  let ?buf = "memmove buf p (store_u64 offset)"
  have len: "length ?buf = length buf" using assms by (simp add: memmove_def)
  have "fill_sector_words f ?buf (p + 8) (p + 512) offset =
     (take (p + 8) ?buf @ concat (map store_u64 (chain f 63 offset)) @ drop (p + 512) ?buf,
      p + 512, (f ^^ 63) offset)"
    using assms len by (intro fill_sector_words_chain) auto
  moreover have "take (p + 8) ?buf = take p buf @ store_u64 offset"
    using assms by (simp add: memmove_def)
  moreover have "drop (p + 512) ?buf = drop (p + 512) buf"
    using assms by (simp add: memmove_def add.commute)
  ultimately show ?thesis by (simp add: stamp_def)
qed

lemma pattern_Suc:
  "pattern f (Suc n) offset = stamp f offset @ pattern f n (offset + 512)"
proof -
  have "[0..<Suc n] = 0 # map Suc [0..<n]"
    by (simp add: upt_conv_Cons map_Suc_upt del: upt_Suc)
  then show ?thesis
    by (simp add: pattern_def SECTOR_SIZE_def comp_def add.assoc del: upt_Suc)
qed

lemma pattern_0 [simp]: "pattern f 0 offset = []"
  by (simp add: pattern_def)

lemma length_pattern [simp]: "length (pattern f n offset) = 512 * n"
  by (induction n arbitrary: offset) (auto simp: pattern_Suc)

lemma fill_sectors_pattern:
  "p + 512 * n = ptr_end \<Longrightarrow> ptr_end \<le> length buf \<Longrightarrow>
   fill_sectors f buf p ptr_end offset =
     Inr (take p buf @ pattern f n offset @ drop ptr_end buf, offset + of_nat (512 * n))"
proof (induction n arbitrary: buf p offset)
  case 0
  then show ?case by (simp add: fill_sectors.simps)
next
  case (Suc n)
  let ?buf = "take p buf @ stamp f offset @ drop (p + 512) buf"
  have len: "length ?buf = length buf" using Suc.prems by simp
  have "fill_sectors f buf p ptr_end offset = fill_sectors f ?buf (p + 512) ptr_end (offset + 512)"
    using Suc.prems
    by (subst fill_sectors.simps) (simp add: SECTOR_SIZE_def fill_one_sector)
  also have "\<dots> = Inr (take (p + 512) ?buf @ pattern f n (offset + 512) @ drop ptr_end ?buf,
      offset + 512 + of_nat (512 * n))"
    using Suc.prems len by (intro Suc.IH) auto
  also have "take (p + 512) ?buf = take p buf @ stamp f offset"
    using Suc.prems by simp
  also have "drop ptr_end ?buf = drop ptr_end buf"
    using Suc.prems by simp
  finally show ?case by (simp add: pattern_Suc algebra_simps)
qed

lemma fill_buffer_pattern:
  assumes "sz > 0" "sz mod SECTOR_SIZE = 0" "sz \<le> length buf"
  shows "fill_buffer f buf sz offset =
     Inr (pattern f (sz div SECTOR_SIZE) offset @ drop sz buf, offset + of_nat sz)"
proof -
  have eq: "0 + 512 * (sz div 512) = sz" using assms by (auto simp: SECTOR_SIZE_def)
  have "fill_sectors f buf 0 sz offset =
     Inr (take 0 buf @ pattern f (sz div 512) offset @ drop sz buf,
          offset + of_nat (512 * (sz div 512)))"
    by (rule fill_sectors_pattern[OF eq assms(3)])
  also have "512 * (sz div 512) = sz" using eq by simp
  finally show ?thesis using assms by (simp add: fill_buffer_def SECTOR_SIZE_def)
qed


lemma mismatches_nonneg: "0 \<le> mismatches f rn ws"
  by (induction ws arbitrary: rn) auto

lemma mismatches_chain [simp]: "mismatches f rn (chain f k rn) = 0"
  by (induction k arbitrary: rn) auto

lemma count_errors_mismatches:
  "p + 8 * k = ptr_end \<Longrightarrow> 0 \<le> ec \<Longrightarrow>
   count_errors f sector p ptr_end rn ec =
     (if ec > 2 then ec
      else min 3 (ec + mismatches f rn (map (\<lambda>j. load_u64 sector (p + 8 * j)) [0..<k])))"
proof (induction k arbitrary: p rn ec)
  case 0
  then show ?case by (subst count_errors.simps) (simp add: TOLERANCE_def)
next
  case (Suc k)
  have upt: "[0..<Suc k] = 0 # map Suc [0..<k]"
    by (simp add: upt_conv_Cons map_Suc_upt del: upt_Suc)
  let ?rest = "mismatches f (f rn) (map (\<lambda>j. load_u64 sector (p + 8 + 8 * j)) [0..<k])"
  have rest: "0 \<le> ?rest" by (rule mismatches_nonneg)
  show ?case
  proof (cases "ec > 2")
    case True
    then show ?thesis by (subst count_errors.simps) (simp add: TOLERANCE_def)
  next
    case False
    let ?ec = "if f rn \<noteq> load_u64 sector p then ec + 1 else ec"
    have "count_errors f sector p ptr_end rn ec = count_errors f sector (p + 8) ptr_end (f rn) ?ec"
      using False Suc.prems by (subst count_errors.simps) (simp add: TOLERANCE_def)
    also have "\<dots> = (if ?ec > 2 then ?ec else min 3 (?ec + ?rest))"
      using Suc.prems by (intro Suc.IH) auto
    finally show ?thesis using False rest Suc.prems(2)
      by (simp add: upt comp_def add.assoc del: upt_Suc)
  qed
qed

lemma sector_scan_mismatches:
  "sector_scan f sector =
     (load_u64 sector 0, min 3 (mismatches f (load_u64 sector 0) (sector_words sector)))"
proof -
  have "count_errors f sector 8 512 (load_u64 sector 0) 0 =
     (if (0::int) > 2 then 0
      else min 3 (0 + mismatches f (load_u64 sector 0)
                        (map (\<lambda>j. load_u64 sector (8 + 8 * j)) [0..<63])))"
    by (rule count_errors_mismatches) auto
  then show ?thesis by (simp add: sector_scan_def SECTOR_SIZE_def sector_words_def Let_def)
qed

lemma report_sector_min:
  "0 \<le> n \<Longrightarrow> report_sector e found (min 3 n) = report_sector e found n"
  by (auto simp: report_sector_def TOLERANCE_def min_def)

lemma load_u64_words:
  assumes "j < length ws"
  shows "load_u64 (concat (map store_u64 ws) @ rest) (8 * j) = ws ! j"
proof -
  have ws: "ws = take j ws @ ws ! j # drop (Suc j) ws"
    using assms by (rule id_take_nth_drop)
  have "concat (map store_u64 ws) @ rest =
     concat (map store_u64 (take j ws)) @ store_u64 (ws ! j)
       @ (concat (map store_u64 (drop (Suc j) ws)) @ rest)"
    by (subst ws) simp
  moreover have "length (concat (map store_u64 (take j ws))) = 8 * j"
    using assms by simp
  ultimately show ?thesis using load_u64_at by metis
qed

lemma load_u64_stamp_offset: "load_u64 (stamp f offset @ rest) 0 = offset"
  using load_u64_words[of 0 "offset # chain f 63 offset" rest] by (simp add: stamp_def)

lemma sector_words_stamp: "sector_words (stamp f offset @ rest) = chain f 63 offset"
proof (rule nth_equalityI)
  show "length (sector_words (stamp f offset @ rest)) = length (chain f 63 offset)"
    by (simp add: sector_words_def)
next
  fix i assume "i < length (sector_words (stamp f offset @ rest))"
  then have i: "i < 63" by (simp add: sector_words_def)
  have "load_u64 (concat (map store_u64 (offset # chain f 63 offset)) @ rest) (8 * Suc i)
      = (offset # chain f 63 offset) ! Suc i"
    using i by (intro load_u64_words) simp
  then show "sector_words (stamp f offset @ rest) ! i = chain f 63 offset ! i"
    using i by (simp add: sector_words_def stamp_def del: upt_Suc)
qed

lemma sector_scan_stamp: "sector_scan f (stamp f offset @ rest) = (offset, 0)"
  by (simp add: sector_scan_mismatches load_u64_stamp_offset sector_words_stamp)

lemma validate_sector_stamp: "validate_sector f offset (stamp f offset @ rest) = []"
  by (simp add: validate_sector_def sector_scan_stamp report_sector_def)



lemma drop_pattern:
  "k \<le> n \<Longrightarrow> drop (512 * k) (pattern f n offset) = pattern f (n - k) (offset + of_nat (512 * k))"
proof (induction k arbitrary: n offset)
  case 0 then show ?case by simp
next
  case (Suc k)
  then obtain m where n: "n = Suc m" by (cases n) auto
  have "drop (512 * Suc k) (pattern f n offset) = drop (512 * k) (pattern f m (offset + 512))"
    by (simp add: n pattern_Suc)
  also have "\<dots> = pattern f (m - k) (offset + 512 + of_nat (512 * k))"
    using Suc.prems n by (intro Suc.IH) simp
  finally show ?case by (simp add: n algebra_simps)
qed

lemma sector_of_pattern:
  assumes "k < n"
  shows "drop (k * SECTOR_SIZE) (pattern f n offset @ rest) =
         stamp f (offset + of_nat (k * SECTOR_SIZE))
           @ (pattern f (n - Suc k) (offset + of_nat (Suc k * SECTOR_SIZE)) @ rest)"
proof -
  have "drop (512 * k) (pattern f n offset @ rest) = drop (512 * k) (pattern f n offset) @ rest"
    using assms by simp
  also have "drop (512 * k) (pattern f n offset) = pattern f (n - k) (offset + of_nat (512 * k))"
    using assms by (intro drop_pattern) simp
  also have "n - k = Suc (n - Suc k)" using assms by simp
  finally show ?thesis
    by (simp add: pattern_Suc SECTOR_SIZE_def algebra_simps)
qed

section \<open>The validator\<close>

declare count_all_errors.simps [simp del]

lemma count_all_errors_mismatches:
  "p + 8 * k = ptr_end \<Longrightarrow>
   count_all_errors f sector p ptr_end rn ec =
     ec + mismatches f rn (map (\<lambda>j. load_u64 sector (p + 8 * j)) [0..<k])"
proof (induction k arbitrary: p rn ec)
  case 0
  then show ?case by (subst count_all_errors.simps) simp
next
  case (Suc k)
  have upt: "[0..<Suc k] = 0 # map Suc [0..<k]"
    by (simp add: upt_conv_Cons map_Suc_upt del: upt_Suc)
  let ?ec = "if f rn \<noteq> load_u64 sector p then ec + 1 else ec"
  have "count_all_errors f sector p ptr_end rn ec =
        count_all_errors f sector (p + 8) ptr_end (f rn) ?ec"
    using Suc.prems by (subst count_all_errors.simps) simp
  also have "\<dots> = ?ec + mismatches f (f rn) (map (\<lambda>j. load_u64 sector (p + 8 + 8 * j)) [0..<k])"
    using Suc.prems by (intro Suc.IH) auto
  finally show ?case
    by (simp add: upt comp_def add.assoc del: upt_Suc)
qed

lemma reference_count:
  "count_all_errors f sector 8 SECTOR_SIZE rn 0 = mismatches f rn (sector_words sector)"
  using count_all_errors_mismatches[of 8 63 512 f sector rn 0]
  by (simp add: SECTOR_SIZE_def sector_words_def)

lemma mismatches_differing:
  "mismatches f rn ws =
     int (length (filter (\<lambda>(a, b). a \<noteq> b) (zip ws (chain f (length ws) rn))))"
  by (induction ws arbitrary: rn) auto

lemma mismatches_stamp:
  "load_u64 s 0 = e \<Longrightarrow>
   mismatches f e (sector_words s) = int (differing_words s (stamp f e))"
  using sector_words_stamp[of f e "[]"]
  by (simp add: mismatches_differing differing_words_def sector_words_def)

lemma validate_sector_report:
  "validate_sector f e s =
     report_sector e (load_u64 s 0) (mismatches f (load_u64 s 0) (sector_words s))"
  by (simp add: validate_sector_def sector_scan_mismatches report_sector_min mismatches_nonneg)

lemma sector_words_of_words:
  assumes "length ws = 63"
  shows "sector_words (concat (map store_u64 (w # ws)) @ rest) = ws"
proof (rule nth_equalityI)
  show "length (sector_words (concat (map store_u64 (w # ws)) @ rest)) = length ws"
    using assms by (simp add: sector_words_def)
next
  fix i assume "i < length (sector_words (concat (map store_u64 (w # ws)) @ rest))"
  then have i: "i < 63" by (simp add: sector_words_def)
  have "load_u64 (concat (map store_u64 (w # ws)) @ rest) (8 * Suc i) = (w # ws) ! Suc i"
    using i assms by (intro load_u64_words) simp
  then show "sector_words (concat (map store_u64 (w # ws)) @ rest) ! i = ws ! i"
    using i by (simp add: sector_words_def del: upt_Suc)
qed

lemma load_u64_of_words: "load_u64 (concat (map store_u64 (w # ws)) @ rest) 0 = w"
  using load_u64_words[of 0 "w # ws" rest] by simp

lemma differing_words_of_words:
  "length ws = 63 \<Longrightarrow>
   differing_words (concat (map store_u64 (w # ws))) (stamp f e) =
     length (filter (\<lambda>(a, b). a \<noteq> b) (zip ws (chain f 63 e)))"
  using sector_words_of_words[of ws w "[]"] sector_words_stamp[of f e "[]"]
  by (simp add: differing_words_def)

lemma two_changed_differ:
  "length (filter (\<lambda>(a, b). a \<noteq> b) (zip two_changed (chain lcg 63 1024))) = 2"
  by code_simp

lemma three_changed_differ:
  "length (filter (\<lambda>(a, b). a \<noteq> b) (zip three_changed (chain lcg 63 1024))) = 3"
  by code_simp

lemma length_two_changed: "length two_changed = 63"
  by (simp add: two_changed_def)

lemma length_three_changed: "length three_changed = 63"
  by (simp add: three_changed_def)

text \<open>
  C1. \<^verbatim>\<open>validate_sector\<close> classifies by the matrix. With \<open>n\<close> the number of chain words of
  the sector that differ from the chain seeded with the offset found in it: found offset
  equal to the expected one and \<open>n = 0\<close> prints nothing (Good), \<open>n\<close> in 1..2 prints
  ``Changed'', \<open>n > 2\<close> prints ``BAD matching''; found offset different and \<open>n = 0\<close> prints
  ``Overwritten'', \<open>n\<close> in 1..2 prints ``Overwritten and changed'', \<open>n > 2\<close> prints nothing
  (Bad). In particular a sector that carries the expected offset and differs from the
  stamp of that offset in exactly 2 chain words is Changed, and in exactly 3 it is BAD
  matching.
\<close>

theorem validate_sector_matrix:
  "validate_sector f e s =
     (if load_u64 s 0 = e then
        (if mismatches f (load_u64 s 0) (sector_words s) = 0 then []
         else if mismatches f (load_u64 s 0) (sector_words s) \<le> 2 then [Changed_sector e]
         else [BAD_matching_sector e])
      else
        (if mismatches f (load_u64 s 0) (sector_words s) = 0
         then [Overwritten_sector e (load_u64 s 0)]
         else if mismatches f (load_u64 s 0) (sector_words s) \<le> 2
         then [Overwritten_and_changed_sector e (load_u64 s 0)]
         else []))
   \<and> (load_u64 s 0 = e \<and> differing_words s (stamp f e) = 2
        \<longrightarrow> validate_sector f e s = [Changed_sector e])
   \<and> (load_u64 s 0 = e \<and> differing_words s (stamp f e) = 3
        \<longrightarrow> validate_sector f e s = [BAD_matching_sector e])"
proof -
  let ?n = "mismatches f (load_u64 s 0) (sector_words s)"
  have report: "validate_sector f e s = report_sector e (load_u64 s 0) ?n"
    by (rule validate_sector_report)
  have matrix: "validate_sector f e s =
     (if load_u64 s 0 = e then
        (if ?n = 0 then [] else if ?n \<le> 2 then [Changed_sector e]
         else [BAD_matching_sector e])
      else
        (if ?n = 0 then [Overwritten_sector e (load_u64 s 0)]
         else if ?n \<le> 2 then [Overwritten_and_changed_sector e (load_u64 s 0)]
         else []))"
    unfolding report by (simp add: report_sector_def TOLERANCE_def)
  have two: "validate_sector f e s = [Changed_sector e]"
    if "load_u64 s 0 = e" "differing_words s (stamp f e) = 2"
    using that mismatches_stamp[OF that(1), of f]
    unfolding report by (simp add: report_sector_def TOLERANCE_def)
  have three: "validate_sector f e s = [BAD_matching_sector e]"
    if "load_u64 s 0 = e" "differing_words s (stamp f e) = 3"
    using that mismatches_stamp[OF that(1), of f]
    unfolding report by (simp add: report_sector_def TOLERANCE_def)
  show ?thesis using matrix two three by blast
qed

theorem validate_sector_matrix_witness:
  "(load_u64 (concat (map store_u64 (1024 # two_changed))) 0 = 1024
    \<and> differing_words (concat (map store_u64 (1024 # two_changed))) (stamp lcg 1024) = 2
    \<and> validate_sector lcg 1024 (concat (map store_u64 (1024 # two_changed)))
        = [Changed_sector 1024])
   \<and> (load_u64 (concat (map store_u64 (1024 # three_changed))) 0 = 1024
    \<and> differing_words (concat (map store_u64 (1024 # three_changed))) (stamp lcg 1024) = 3
    \<and> validate_sector lcg 1024 (concat (map store_u64 (1024 # three_changed)))
        = [BAD_matching_sector 1024])"
proof -
  let ?s2 = "concat (map store_u64 (1024 # two_changed))"
  let ?s3 = "concat (map store_u64 (1024 # three_changed))"
  have o2: "load_u64 ?s2 0 = 1024" using load_u64_of_words[of 1024 two_changed "[]"] by simp
  have o3: "load_u64 ?s3 0 = 1024" using load_u64_of_words[of 1024 three_changed "[]"] by simp
  have d2: "differing_words ?s2 (stamp lcg 1024) = 2"
    by (simp only: differing_words_of_words[OF length_two_changed] two_changed_differ)
  have d3: "differing_words ?s3 (stamp lcg 1024) = 3"
    by (simp only: differing_words_of_words[OF length_three_changed] three_changed_differ)
  from validate_sector_matrix[of lcg 1024 ?s2] o2 d2
  have v2: "validate_sector lcg 1024 ?s2 = [Changed_sector 1024]" by blast
  from validate_sector_matrix[of lcg 1024 ?s3] o3 d3
  have v3: "validate_sector lcg 1024 ?s3 = [BAD_matching_sector 1024]" by blast
  from o2 d2 v2 o3 d3 v3 show ?thesis by blast
qed

text \<open>
  C3. The count of \<^verbatim>\<open>validate_sector\<close> is taken against the chain seeded with the offset
  found in the sector: the scan returns that offset and the number of sector words that
  differ from its chain (cut at 3), the expected offset enters only the report, and a
  sector stamped for any offset counts no mismatch whatever offset is expected: it is Good
  at its own offset and Overwritten anywhere else.
\<close>

theorem chain_seeded_with_found_offset:
  "sector_scan f s = (load_u64 s 0, min 3 (mismatches f (load_u64 s 0) (sector_words s)))
   \<and> validate_sector f e s = report_sector e (fst (sector_scan f s)) (snd (sector_scan f s))
   \<and> validate_sector f e (stamp f offset)
       = (if offset = e then [] else [Overwritten_sector e offset])"
proof -
  have scan: "sector_scan f (stamp f offset) = (offset, 0)"
    using sector_scan_stamp[of f offset "[]"] by simp
  have "validate_sector f e (stamp f offset)
      = (if offset = e then [] else [Overwritten_sector e offset])"
    by (simp add: validate_sector_def scan report_sector_def)
  moreover have "validate_sector f e s
      = report_sector e (fst (sector_scan f s)) (snd (sector_scan f s))"
    by (simp add: validate_sector_def split: prod.split)
  ultimately show ?thesis
    using sector_scan_mismatches[of f s] by simp
qed

text \<open>
  C7. The early exit does not change the classification: \<^verbatim>\<open>validate_sector\<close> prints what the
  reference validator prints, which counts every mismatching word of the sector, and the
  two counts agree on being 0, in 1..2 or above 2.
\<close>

theorem early_exit_same_classification:
  "validate_sector f e s = validate_sector_reference f e s
   \<and> (snd (sector_scan f s) = 0)
       = (count_all_errors f s 8 SECTOR_SIZE (load_u64 s 0) 0 = 0)
   \<and> (1 \<le> snd (sector_scan f s) \<and> snd (sector_scan f s) \<le> TOLERANCE)
       = (1 \<le> count_all_errors f s 8 SECTOR_SIZE (load_u64 s 0) 0
          \<and> count_all_errors f s 8 SECTOR_SIZE (load_u64 s 0) 0 \<le> TOLERANCE)
   \<and> (snd (sector_scan f s) > TOLERANCE)
       = (count_all_errors f s 8 SECTOR_SIZE (load_u64 s 0) 0 > TOLERANCE)"
proof -
  have n: "0 \<le> mismatches f (load_u64 s 0) (sector_words s)" by (rule mismatches_nonneg)
  show ?thesis
    using n
    by (simp add: validate_sector_def validate_sector_reference_def sector_scan_mismatches
        reference_count report_sector_min TOLERANCE_def) (auto simp: min_def)
qed

section \<open>Round trip\<close>

text \<open>
  C2. Filling a buffer and validating at once is Good: when \<^verbatim>\<open>fill_buffer\<close> is called
  with a size that is a positive multiple of the sector size on a buffer that holds that
  many bytes, it returns, and for every sector \<open>k\<close> of the filled buffer \<^verbatim>\<open>validate_sector\<close>
  against the offset the sector was stamped for (\<open>offset + 512 k\<close>) reads that offset
  back, counts no mismatch and prints nothing.
\<close>

theorem fill_then_validate_good:
  assumes "0 < sz" and "sz mod SECTOR_SIZE = 0" and "sz \<le> length buf"
    and "k < sz div SECTOR_SIZE"
  shows "\<exists>buf' offset'.
           fill_buffer f buf sz offset = Inr (buf', offset') \<and>
           sector_scan f (take SECTOR_SIZE (drop (k * SECTOR_SIZE) buf'))
             = (offset + of_nat (k * SECTOR_SIZE), 0) \<and>
           validate_sector f (offset + of_nat (k * SECTOR_SIZE))
             (take SECTOR_SIZE (drop (k * SECTOR_SIZE) buf')) = []"
proof -
  let ?buf = "pattern f (sz div SECTOR_SIZE) offset @ drop sz buf"
  let ?o = "offset + of_nat (k * SECTOR_SIZE)"
  have fill: "fill_buffer f buf sz offset = Inr (?buf, offset + of_nat sz)"
    using assms(1-3) by (rule fill_buffer_pattern)
  have "drop (k * SECTOR_SIZE) ?buf = stamp f ?o
      @ (pattern f (sz div SECTOR_SIZE - Suc k) (offset + of_nat (Suc k * SECTOR_SIZE))
          @ drop sz buf)"
    using assms(4) by (rule sector_of_pattern)
  then have "take SECTOR_SIZE (drop (k * SECTOR_SIZE) ?buf) = stamp f ?o @ []"
    by (simp add: SECTOR_SIZE_def)
  then show ?thesis
    using fill sector_scan_stamp[of f ?o "[]"] validate_sector_stamp[of f ?o "[]"]
    by auto
qed

theorem fill_then_validate_good_witness:
  "0 < (512::nat) \<and> (512::nat) mod SECTOR_SIZE = 0
   \<and> 512 \<le> length (replicate 512 (0::u8)) \<and> 0 < (512::nat) div SECTOR_SIZE
   \<and> (\<exists>buf' offset'.
           fill_buffer (\<lambda>x. x * 4294967311 + 17) (replicate 512 0) 512 1024 = Inr (buf', offset') \<and>
           sector_scan (\<lambda>x. x * 4294967311 + 17) (take SECTOR_SIZE (drop (0 * SECTOR_SIZE) buf'))
             = (1024 + of_nat (0 * SECTOR_SIZE), 0) \<and>
           validate_sector (\<lambda>x. x * 4294967311 + 17) (1024 + of_nat (0 * SECTOR_SIZE))
             (take SECTOR_SIZE (drop (0 * SECTOR_SIZE) buf')) = [])"
proof -
  have h: "0 < (512::nat)" "(512::nat) mod SECTOR_SIZE = 0"
    "512 \<le> length (replicate 512 (0::u8))" "0 < (512::nat) div SECTOR_SIZE"
    by (simp_all add: SECTOR_SIZE_def)
  from fill_then_validate_good[OF h, of "\<lambda>x. x * 4294967311 + 17" 1024] h
  show ?thesis by blast
qed

section \<open>The loops\<close>

lemma write_body_index:
  "write_blocks_body ops f bs s = (evs, Inr s') \<Longrightarrow> w_i s' = w_i s + 1"
  by (auto simp: write_blocks_body_def split: sum.splits prod.splits)

lemma unat_succ: "(i::u64) \<le> lb \<Longrightarrow> lb \<noteq> - 1 \<Longrightarrow> unat (i + 1) = unat i + 1"
proof -
  assume a: "i \<le> lb" "lb \<noteq> - 1"
  have "unat (- 1 :: u64) = 2 ^ 64 - 1"
    by (simp add: unsigned_minus_1_eq_mask mask_eq_exp_minus_1)
  then have "unat lb \<noteq> 2 ^ 64 - 1"
    using a(2) by (metis word_unat_eq_iff)
  moreover have "unat lb < 2 ^ 64" using unsigned_less[of lb, where 'a=nat] by simp
  moreover have "unat i \<le> unat lb" using a(1) by (simp add: word_le_nat_alt)
  ultimately show ?thesis by (simp add: unat_word_ariths)
qed

lemma write_loop_turns:
  "n = unat lb + 1 - unat (w_i s) \<Longrightarrow> lb \<noteq> - 1 \<Longrightarrow>
   write_blocks_loop ops f bs lb s tr =
     Some (tr @ fst (turns (write_blocks_body ops f bs) n s),
           snd (turns (write_blocks_body ops f bs) n s))"
proof (induction n arbitrary: s tr)
  case 0
  then have "\<not> w_i s \<le> lb" by (simp add: word_le_nat_alt)
  then show ?case by (subst write_blocks_loop.simps) simp
next
  case (Suc n)
  then have le: "w_i s \<le> lb" by (simp add: word_le_nat_alt)
  obtain evs r where body: "write_blocks_body ops f bs s = (evs, r)" by force
  show ?case
  proof (cases r)
    case (Inl a)
    then show ?thesis using le body by (subst write_blocks_loop.simps) simp
  next
    case (Inr s')
    have "w_i s' = w_i s + 1" using body Inr by (auto dest: write_body_index)
    then have "n = unat lb + 1 - unat (w_i s')"
      using Suc.prems le by (simp add: unat_succ)
    from Suc.IH[OF this Suc.prems(2), of "tr @ evs"] show ?thesis
      using le body Inr
      by (subst write_blocks_loop.simps) (simp split: prod.splits)
  qed
qed

lemma write_body_pattern:
  assumes "size_t_of_int bs = sz" "0 < sz" "sz mod SECTOR_SIZE = 0" "length (w_stamp_blk s) = sz"
  shows "write_blocks_body ops f bs s =
     (let blk = pattern f (sz div SECTOR_SIZE) (w_sector_offset s);
          res = dev_write_block ops (w_dev s) blk (w_i s)
      in (Dev_write_block (w_i s) blk (fst res)
            # (if fst res \<noteq> 0 then [Warn_failed_writing (w_i s)] else []),
          Inr \<lparr>w_i = w_i s + 1, w_sector_offset = w_sector_offset s + of_nat sz,
               w_stamp_blk = blk, w_dev = snd res\<rparr>))"
proof -
  have "fill_buffer f (w_stamp_blk s) sz (w_sector_offset s) =
     Inr (pattern f (sz div SECTOR_SIZE) (w_sector_offset s) @ drop sz (w_stamp_blk s),
          w_sector_offset s + of_nat sz)"
    using assms by (intro fill_buffer_pattern) auto
  then show ?thesis using assms
    by (simp add: write_blocks_body_def Let_def split: prod.splits)
qed

lemma write_turns:
  assumes "size_t_of_int bs = sz" "0 < sz" "sz mod SECTOR_SIZE = 0"
  shows "length (w_stamp_blk s) = sz \<Longrightarrow>
   \<exists>evs s'. turns (write_blocks_body ops f bs) n s = (evs, Inr s')
     \<and> w_i s' = w_i s + of_nat n
     \<and> written evs = map (\<lambda>k. (w_i s + of_nat k,
           pattern f (sz div SECTOR_SIZE) (w_sector_offset s + of_nat k * of_nat sz))) [0..<n]
     \<and> write_warnings evs = write_failures evs"
proof (induction n arbitrary: s)
  case 0
  then show ?case by simp
next
  case (Suc n)
  let ?blk = "pattern f (sz div SECTOR_SIZE) (w_sector_offset s)"
  let ?res = "dev_write_block ops (w_dev s) ?blk (w_i s)"
  let ?s = "\<lparr>w_i = w_i s + 1, w_sector_offset = w_sector_offset s + of_nat sz,
               w_stamp_blk = ?blk, w_dev = snd ?res\<rparr>"
  let ?ev = "Dev_write_block (w_i s) ?blk (fst ?res)
            # (if fst ?res \<noteq> 0 then [Warn_failed_writing (w_i s)] else [])"
  have body: "write_blocks_body ops f bs s = (?ev, Inr ?s)"
    using write_body_pattern[OF assms Suc.prems, of ops f] by (simp add: Let_def)
  have len: "length (w_stamp_blk ?s) = sz"
    using assms(3) by (auto simp: SECTOR_SIZE_def)
  from Suc.IH[OF len] obtain evs s' where
    t: "turns (write_blocks_body ops f bs) n ?s = (evs, Inr s')"
    and i: "w_i s' = w_i ?s + of_nat n"
    and w: "written evs = map (\<lambda>k. (w_i ?s + of_nat k,
           pattern f (sz div SECTOR_SIZE) (w_sector_offset ?s + of_nat k * of_nat sz))) [0..<n]"
    and f: "write_warnings evs = write_failures evs"
    by blast
  have upt: "[0..<Suc n] = 0 # map Suc [0..<n]"
    by (simp add: upt_conv_Cons map_Suc_upt del: upt_Suc)
  have "turns (write_blocks_body ops f bs) (Suc n) s = (?ev @ evs, Inr s')"
    using body t by simp
  moreover have "w_i s' = w_i s + of_nat (Suc n)" using i by simp
  moreover have "written (?ev @ evs) = map (\<lambda>k. (w_i s + of_nat k,
           pattern f (sz div SECTOR_SIZE) (w_sector_offset s + of_nat k * of_nat sz))) [0..<Suc n]"
    using w by (simp add: upt comp_def algebra_simps del: upt_Suc)
  moreover have "write_warnings (?ev @ evs) = write_failures (?ev @ evs)"
    using f by simp
  ultimately show ?case by blast
qed

lemma geometry_size:
  assumes "block_geometry ops dev"
  shows "size_t_of_int (dev_get_block_size ops dev) = nat (dev_get_block_size ops dev)"
    and "0 < nat (dev_get_block_size ops dev)"
    and "nat (dev_get_block_size ops dev) mod SECTOR_SIZE = 0"
    and "(of_nat (nat (dev_get_block_size ops dev)) :: u64) = 2 ^ nat (dev_get_block_order ops dev)"
    and "(of_int (dev_get_block_size ops dev) :: u64) = 2 ^ nat (dev_get_block_order ops dev)"
proof -
  let ?n = "nat (dev_get_block_order ops dev)"
  have bs: "dev_get_block_size ops dev = 2 ^ ?n" and n9: "9 \<le> ?n" and n20: "?n \<le> 20"
    using assms by (auto simp: block_geometry_def)
  have "(2::int) ^ ?n \<le> 2 ^ 20" using n20 by (intro power_increasing) auto
  then have lt: "(2::int) ^ ?n < 2 ^ 64" by simp
  show "size_t_of_int (dev_get_block_size ops dev) = nat (dev_get_block_size ops dev)"
    using lt by (simp add: size_t_of_int_def bs)
  show "0 < nat (dev_get_block_size ops dev)" by (simp add: bs)
  have "(2::nat) ^ (9 + (?n - 9)) = 2 ^ 9 * 2 ^ (?n - 9)"
    by (rule power_add)
  then have "(2::nat) ^ ?n = 512 * 2 ^ (?n - 9)"
    using n9 by simp
  then have "(2::nat) ^ ?n mod 512 = 0" by simp
  then show "nat (dev_get_block_size ops dev) mod SECTOR_SIZE = 0"
    by (simp add: bs SECTOR_SIZE_def nat_power_eq)
  show "(of_nat (nat (dev_get_block_size ops dev)) :: u64) = 2 ^ ?n"
    by (simp add: bs nat_power_eq)
  show "(of_int (dev_get_block_size ops dev) :: u64) = 2 ^ ?n"
    by (simp add: bs)
qed

lemma shl_add: "shl (fb + of_nat k) n = shl fb n + of_nat k * 2 ^ nat n"
  by (simp add: shl_def push_bit_eq_mult algebra_simps)

lemma unat_add_index:
  "unat (fb::u64) + k < 2 ^ 64 \<Longrightarrow> unat (fb + of_nat k) = unat fb + k"
  by (simp add: unat_word_ariths unat_of_nat)

lemma ascending_indices:
  assumes "unat (fb::u64) + n \<le> 2 ^ 64"
  shows "sorted_wrt (<) (map (\<lambda>k. fb + of_nat k) [0..<n])"
  unfolding sorted_wrt_iff_nth_less
proof (intro allI impI)
  fix i j assume "i < j" "j < length (map (\<lambda>k. fb + of_nat k) [0..<n])"
  then have "i < j" "j < n" by auto
  then have "unat (fb + of_nat i) = unat fb + i" "unat (fb + of_nat j) = unat fb + j"
    using assms by (auto intro!: unat_add_index)
  then show "map (\<lambda>k. fb + of_nat k) [0..<n] ! i < map (\<lambda>k. fb + of_nat k) [0..<n] ! j"
    using \<open>i < j\<close> \<open>j < n\<close> by (simp add: word_less_nat_alt)
qed

lemma write_blocks_run:
  assumes g: "block_geometry ops dev"
    and len: "length stamp_blk = nat (dev_get_block_size ops dev)"
    and nm: "lb \<noteq> - 1"
  shows "\<exists>tr s. write_blocks ops f stamp_blk dev fb lb = Some (tr, Inr s)
     \<and> w_i s = fb + of_nat (unat lb + 1 - unat fb)
     \<and> written tr = map (\<lambda>k. (fb + of_nat k,
           pattern f (nat (dev_get_block_size ops dev) div SECTOR_SIZE)
             (shl (fb + of_nat k) (dev_get_block_order ops dev))))
           [0..<unat lb + 1 - unat fb]
     \<and> write_warnings tr = write_failures tr"
proof -
  let ?bs = "dev_get_block_size ops dev"
  let ?n = "unat lb + 1 - unat fb"
  let ?s = "\<lparr>w_i = fb, w_sector_offset = shl fb (dev_get_block_order ops dev),
        w_stamp_blk = stamp_blk, w_dev = dev\<rparr>"
  have n: "?n = unat lb + 1 - unat (w_i ?s)" by simp
  have loop: "write_blocks ops f stamp_blk dev fb lb =
     Some (fst (turns (write_blocks_body ops f ?bs) ?n ?s),
           snd (turns (write_blocks_body ops f ?bs) ?n ?s))"
    using write_loop_turns[OF n nm, of ops f ?bs "[]"] by (simp add: write_blocks_def)
  have "length (w_stamp_blk ?s) = nat ?bs" using len by simp
  from write_turns[OF geometry_size(1-3)[OF g] this, of ops f ?n]
  obtain evs s' where t: "turns (write_blocks_body ops f ?bs) ?n ?s = (evs, Inr s')"
    and i: "w_i s' = w_i ?s + of_nat ?n"
    and w: "written evs = map (\<lambda>k. (w_i ?s + of_nat k,
           pattern f (nat ?bs div SECTOR_SIZE)
             (w_sector_offset ?s + of_nat k * of_nat (nat ?bs)))) [0..<?n]"
    and wf: "write_warnings evs = write_failures evs"
    by blast
  have "w_i s' = fb + of_nat ?n" using i by simp
  moreover have "written evs = map (\<lambda>k. (fb + of_nat k,
           pattern f (nat ?bs div SECTOR_SIZE)
             (shl (fb + of_nat k) (dev_get_block_order ops dev)))) [0..<?n]"
    using w by (simp add: shl_add geometry_size(4)[OF g])
  ultimately show ?thesis using loop t wf by simp
qed

lemma reads_append [simp]: "reads (xs @ ys) = reads xs @ reads ys"
  by (induction xs rule: reads.induct) auto

lemma reads_Printed [simp]: "reads (map Printed ds) = []"
  by (induction ds) auto

lemma read_report_shift:
  "read_report f bs (e + of_int bs) (i + 1) r = read_report f bs e i r"
proof -
  obtain j blk rc where r: "r = (j, blk, rc)" by (cases r) auto
  have eq: "e + of_int bs + (j - (i + 1)) * of_int bs = e + (j - i) * (of_int bs :: u64)"
    by (simp add: algebra_simps)
  show ?thesis unfolding read_report_def r prod.case eq ..
qed

lemma read_report_shift_fun:
  "read_report f bs (e + of_int bs) (i + 1) = read_report f bs e i"
  by (rule ext) (rule read_report_shift)

lemma read_body_index:
  "read_blocks_body ops f bs s = (evs, Inr s') \<Longrightarrow> r_i s' = r_i s + 1"
  by (auto simp: read_blocks_body_def Let_def split: sum.splits prod.splits if_splits)

lemma read_loop_turns:
  "n = unat lb + 1 - unat (r_i s) \<Longrightarrow> lb \<noteq> - 1 \<Longrightarrow>
   read_blocks_loop ops f bs lb s tr =
     Some (tr @ fst (turns (read_blocks_body ops f bs) n s),
           snd (turns (read_blocks_body ops f bs) n s))"
proof (induction n arbitrary: s tr)
  case 0
  then have "\<not> r_i s \<le> lb" by (simp add: word_le_nat_alt)
  then show ?case by (subst read_blocks_loop.simps) simp
next
  case (Suc n)
  then have le: "r_i s \<le> lb" by (simp add: word_le_nat_alt)
  obtain evs r where body: "read_blocks_body ops f bs s = (evs, r)" by force
  show ?case
  proof (cases r)
    case (Inl a)
    then show ?thesis using le body by (subst read_blocks_loop.simps) simp
  next
    case (Inr s')
    have "r_i s' = r_i s + 1" using body Inr by (auto dest: read_body_index)
    then have "n = unat lb + 1 - unat (r_i s')"
      using Suc.prems le by (simp add: unat_succ)
    from Suc.IH[OF this Suc.prems(2), of "tr @ evs"] show ?thesis
      using le body Inr
      by (subst read_blocks_loop.simps) (simp split: prod.splits)
  qed
qed

lemma read_body_report:
  assumes "bs mod int SECTOR_SIZE = 0"
  shows "read_blocks_body ops f bs s =
     (let res = dev_read_block ops (r_dev s) (r_probe_blk s) (r_i s)
      in (read_report f bs (r_expected_sector_offset s) (r_i s)
            (r_i s, fst (snd res), fst res),
          Inr \<lparr>r_i = r_i s + 1,
               r_expected_sector_offset = r_expected_sector_offset s + of_int bs,
               r_probe_blk = fst (snd res), r_dev = snd (snd res)\<rparr>))"
  using assms
  by (simp add: read_blocks_body_def read_report_def validate_block_def Let_def
      split: prod.splits)

lemma read_turns:
  assumes "bs mod int SECTOR_SIZE = 0"
  shows "\<exists>evs s'. turns (read_blocks_body ops f bs) n s = (evs, Inr s')
     \<and> r_i s' = r_i s + of_nat n
     \<and> r_expected_sector_offset s' = r_expected_sector_offset s + of_nat n * of_int bs
     \<and> map fst (reads evs) = map (\<lambda>k. r_i s + of_nat k) [0..<n]
     \<and> evs = concat (map (read_report f bs (r_expected_sector_offset s) (r_i s)) (reads evs))"
proof (induction n arbitrary: s)
  case 0
  then show ?case by simp
next
  case (Suc n)
  let ?res = "dev_read_block ops (r_dev s) (r_probe_blk s) (r_i s)"
  let ?r = "(r_i s, fst (snd ?res), fst ?res)"
  let ?ev = "read_report f bs (r_expected_sector_offset s) (r_i s) ?r"
  let ?s = "\<lparr>r_i = r_i s + 1,
               r_expected_sector_offset = r_expected_sector_offset s + of_int bs,
               r_probe_blk = fst (snd ?res), r_dev = snd (snd ?res)\<rparr>"
  have body: "read_blocks_body ops f bs s = (?ev, Inr ?s)"
    using read_body_report[OF assms, of ops f s] by (simp add: Let_def)
  have rd: "reads ?ev = [?r]" by (simp add: read_report_def)
  from Suc.IH[of ?s] obtain evs s' where
    t: "turns (read_blocks_body ops f bs) n ?s = (evs, Inr s')"
    and i: "r_i s' = r_i ?s + of_nat n"
    and e: "r_expected_sector_offset s' = r_expected_sector_offset ?s + of_nat n * of_int bs"
    and m: "map fst (reads evs) = map (\<lambda>k. r_i ?s + of_nat k) [0..<n]"
    and c: "evs = concat (map (read_report f bs (r_expected_sector_offset ?s) (r_i ?s)) (reads evs))"
    by blast
  have upt: "[0..<Suc n] = 0 # map Suc [0..<n]"
    by (simp add: upt_conv_Cons map_Suc_upt del: upt_Suc)
  have c': "evs = concat (map (read_report f bs (r_expected_sector_offset s) (r_i s)) (reads evs))"
    using c by (simp add: read_report_shift_fun)
  have "turns (read_blocks_body ops f bs) (Suc n) s = (?ev @ evs, Inr s')"
    using body t by simp
  moreover have "r_i s' = r_i s + of_nat (Suc n)" using i by simp
  moreover have "r_expected_sector_offset s'
      = r_expected_sector_offset s + of_nat (Suc n) * of_int bs"
    using e by (simp add: algebra_simps)
  moreover have "map fst (reads (?ev @ evs)) = map (\<lambda>k. r_i s + of_nat k) [0..<Suc n]"
    using m by (simp add: rd upt comp_def algebra_simps del: upt_Suc)
  moreover have "?ev @ evs
      = concat (map (read_report f bs (r_expected_sector_offset s) (r_i s)) (reads (?ev @ evs)))"
    using c' by (simp add: rd)
  ultimately show ?case by blast
qed

lemma written_append [simp]: "written (xs @ ys) = written xs @ written ys"
  by (induction xs rule: written.induct) auto

lemma resets_append [simp]: "resets (xs @ ys) = resets xs @ resets ys"
  by (induction xs rule: resets.induct) auto

lemma write_warnings_append [simp]:
  "write_warnings (xs @ ys) = write_warnings xs @ write_warnings ys"
  by (induction xs rule: write_warnings.induct) auto

lemma write_failures_append [simp]:
  "write_failures (xs @ ys) = write_failures xs @ write_failures ys"
  by (induction xs rule: write_failures.induct) auto

lemma written_Printed [simp]: "written (map Printed ds) = []"
  by (induction ds) auto

lemma resets_Printed [simp]: "resets (map Printed ds) = []"
  by (induction ds) auto

lemma read_body_events:
  "read_blocks_body ops f bs s = (evs, r) \<Longrightarrow> written evs = [] \<and> resets evs = []"
  by (auto simp: read_blocks_body_def Let_def split: prod.splits sum.splits if_splits)

lemma write_body_events:
  "write_blocks_body ops f bs s = (evs, r) \<Longrightarrow> reads evs = [] \<and> resets evs = []"
  by (auto simp: write_blocks_body_def Let_def split: prod.splits sum.splits if_splits)

lemma read_turns_events:
  "turns (read_blocks_body ops f bs) n s = (evs, r) \<Longrightarrow> written evs = [] \<and> resets evs = []"
proof (induction n arbitrary: s evs r)
  case 0
  then show ?case by simp
next
  case (Suc n)
  obtain e0 r0 where body: "read_blocks_body ops f bs s = (e0, r0)" by force
  note b = read_body_events[OF body]
  show ?case
  proof (cases r0)
    case (Inl a)
    then show ?thesis using Suc.prems body b by auto
  next
    case (Inr s')
    obtain e1 r1 where t: "turns (read_blocks_body ops f bs) n s' = (e1, r1)" by force
    from Suc.IH[OF t] show ?thesis using Suc.prems body b Inr t by auto
  qed
qed

lemma write_turns_events:
  "turns (write_blocks_body ops f bs) n s = (evs, r) \<Longrightarrow> reads evs = [] \<and> resets evs = []"
proof (induction n arbitrary: s evs r)
  case 0
  then show ?case by simp
next
  case (Suc n)
  obtain e0 r0 where body: "write_blocks_body ops f bs s = (e0, r0)" by force
  note b = write_body_events[OF body]
  show ?case
  proof (cases r0)
    case (Inl a)
    then show ?thesis using Suc.prems body b by auto
  next
    case (Inr s')
    obtain e1 r1 where t: "turns (write_blocks_body ops f bs) n s' = (e1, r1)" by force
    from Suc.IH[OF t] show ?thesis using Suc.prems body b Inr t by auto
  qed
qed

lemma probe_order_writing:
  "reads tw = [] \<Longrightarrow> resets tw = [] \<Longrightarrow> probe_order Writing (tw @ es) = probe_order Writing es"
  by (induction tw rule: reads.induct) auto

lemma probe_order_reading:
  "written tr = [] \<Longrightarrow> resets tr = [] \<Longrightarrow> probe_order Reading tr"
  by (induction tr rule: written.induct) auto

lemma read_blocks_events:
  assumes "lb \<noteq> - 1"
  shows "\<exists>tr r. read_blocks ops f blk dev fb lb = Some (tr, r) \<and> written tr = [] \<and> resets tr = []"
proof -
  let ?s = "\<lparr>r_i = fb, r_expected_sector_offset = shl fb (dev_get_block_order ops dev),
        r_probe_blk = blk, r_dev = dev\<rparr>"
  let ?t = "turns (read_blocks_body ops f (dev_get_block_size ops dev))
              (unat lb + 1 - unat (r_i ?s)) ?s"
  have "read_blocks ops f blk dev fb lb = Some (fst ?t, snd ?t)"
    using read_loop_turns[OF refl assms, of ops f "dev_get_block_size ops dev" ?s "[]"]
    by (simp add: read_blocks_def)
  moreover have "written (fst ?t) = [] \<and> resets (fst ?t) = []"
    by (rule read_turns_events[of ops f _ _ ?s _ "snd ?t"]) simp
  ultimately show ?thesis by blast
qed

lemma read_blocks_run:
  assumes bs: "dev_get_block_size ops dev mod int SECTOR_SIZE = 0" and nm: "lb \<noteq> - 1"
  shows "\<exists>tr s. read_blocks ops f blk dev fb lb = Some (tr, Inr s)
     \<and> r_i s = fb + of_nat (unat lb + 1 - unat fb)
     \<and> r_expected_sector_offset s =
         shl fb (dev_get_block_order ops dev)
           + of_nat (unat lb + 1 - unat fb) * of_int (dev_get_block_size ops dev)
     \<and> map fst (reads tr) = map (\<lambda>k. fb + of_nat k) [0..<unat lb + 1 - unat fb]
     \<and> tr = concat (map (read_report f (dev_get_block_size ops dev)
                            (shl fb (dev_get_block_order ops dev)) fb) (reads tr))
     \<and> written tr = [] \<and> resets tr = []"
proof -
  let ?bs = "dev_get_block_size ops dev"
  let ?n = "unat lb + 1 - unat fb"
  let ?s = "\<lparr>r_i = fb, r_expected_sector_offset = shl fb (dev_get_block_order ops dev),
        r_probe_blk = blk, r_dev = dev\<rparr>"
  have n: "?n = unat lb + 1 - unat (r_i ?s)" by simp
  have loop: "read_blocks ops f blk dev fb lb =
     Some (fst (turns (read_blocks_body ops f ?bs) ?n ?s),
           snd (turns (read_blocks_body ops f ?bs) ?n ?s))"
    using read_loop_turns[OF n nm, of ops f ?bs "[]"] by (simp add: read_blocks_def)
  from read_turns[OF bs, of ops f ?n ?s]
  obtain evs s' where t: "turns (read_blocks_body ops f ?bs) ?n ?s = (evs, Inr s')"
    and i: "r_i s' = r_i ?s + of_nat ?n"
    and e: "r_expected_sector_offset s' = r_expected_sector_offset ?s + of_nat ?n * of_int ?bs"
    and m: "map fst (reads evs) = map (\<lambda>k. r_i ?s + of_nat k) [0..<?n]"
    and c: "evs = concat (map (read_report f ?bs (r_expected_sector_offset ?s) (r_i ?s)) (reads evs))"
    by blast
  note ev = read_turns_events[OF t]
  show ?thesis using loop t i e m c ev by simp
qed

lemma write_blocks_events:
  assumes "lb \<noteq> - 1" and "write_blocks ops f blk dev fb lb = Some (tr, r)"
  shows "reads tr = [] \<and> resets tr = []"
proof -
  let ?s = "\<lparr>w_i = fb, w_sector_offset = shl fb (dev_get_block_order ops dev),
        w_stamp_blk = blk, w_dev = dev\<rparr>"
  let ?t = "turns (write_blocks_body ops f (dev_get_block_size ops dev))
              (unat lb + 1 - unat (w_i ?s)) ?s"
  have "write_blocks ops f blk dev fb lb = Some (fst ?t, snd ?t)"
    using write_loop_turns[OF refl assms(1), of ops f "dev_get_block_size ops dev" ?s "[]"]
    by (simp add: write_blocks_def)
  then have "?t = (tr, r)" using assms(2) by simp
  then show ?thesis by (rule write_turns_events)
qed

lemma drop_bit_not_max:
  "0 < n \<Longrightarrow> drop_bit n (w :: u64) \<noteq> - 1"
proof
  assume n: "0 < n" and eq: "drop_bit n w = - 1"
  have "bit (drop_bit n w) 63 = bit w (n + 63)" by (simp add: bit_drop_bit_eq)
  moreover have "\<not> bit w (n + 63)" using n by (auto dest: bit_imp_le_length)
  moreover have "bit (- 1 :: u64) 63" by simp
  ultimately show False using eq by simp
qed

lemma clamp_blocks_fields:
  "first_block (clamp_blocks ops dev a)
     = min (first_block a) (shr (dev_get_size_byte ops dev) (dev_get_block_order ops dev))"
  "last_block (clamp_blocks ops dev a)
     = min (last_block a) (shr (dev_get_size_byte ops dev) (dev_get_block_order ops dev))"
  "test_write (clamp_blocks ops dev a) = test_write a"
  "test_read (clamp_blocks ops dev a) = test_read a"
  by (auto simp: clamp_blocks_def Let_def min_def)

lemma clamped_last_not_max:
  assumes "block_geometry ops dev"
  shows "last_block (clamp_blocks ops dev a) \<noteq> - 1"
proof -
  let ?v = "shr (dev_get_size_byte ops dev) (dev_get_block_order ops dev)"
  have "0 < nat (dev_get_block_order ops dev)" using assms by (simp add: block_geometry_def)
  then have v: "?v \<noteq> - 1" unfolding shr_def by (rule drop_bit_not_max)
  have "last_block (clamp_blocks ops dev a) \<le> ?v" by (simp add: clamp_blocks_fields)
  then show ?thesis using v by (metis word_order.extremum_unique)
qed

lemma test_write_blocks_run:
  assumes g: "block_geometry ops dev"
    and len: "length blk = nat (dev_get_block_size ops dev)"
    and nm: "lb \<noteq> - 1"
  shows "\<exists>tw dev_w. test_write_blocks ops f blk dev fb lb = Some (tw, Inr dev_w)
     \<and> written tw = map (\<lambda>k. (fb + of_nat k,
           pattern f (nat (dev_get_block_size ops dev) div SECTOR_SIZE)
             (shl (fb + of_nat k) (dev_get_block_order ops dev))))
           [0..<unat lb + 1 - unat fb]
     \<and> write_warnings tw = write_failures tw
     \<and> reads tw = [] \<and> resets tw = []"
proof -
  from write_blocks_run[OF g len nm, of f fb] obtain tr s where
    w: "write_blocks ops f blk dev fb lb = Some (tr, Inr s)"
    and wr: "written tr = map (\<lambda>k. (fb + of_nat k,
           pattern f (nat (dev_get_block_size ops dev) div SECTOR_SIZE)
             (shl (fb + of_nat k) (dev_get_block_order ops dev))))
           [0..<unat lb + 1 - unat fb]"
    and wf: "write_warnings tr = write_failures tr"
    by blast
  note ev = write_blocks_events[OF nm w]
  have "test_write_blocks ops f blk dev fb lb =
      Some (Print_writing_blocks fb lb # tr @ [Print_done], Inr (w_dev s))"
    by (simp add: test_write_blocks_def w)
  then show ?thesis using wr wf ev by simp
qed

lemma test_read_blocks_events:
  assumes "lb \<noteq> - 1"
  shows "\<exists>tr r. test_read_blocks ops f blk dev fb lb = Some (tr, r)
     \<and> written tr = [] \<and> resets tr = []"
proof -
  from read_blocks_events[OF assms, of ops f blk dev fb] obtain tr r where
    r: "read_blocks ops f blk dev fb lb = Some (tr, r)"
    and ev: "written tr = []" "resets tr = []"
    by blast
  show ?thesis using ev by (cases r) (simp_all add: test_read_blocks_def r)
qed

lemma test_read_blocks_run:
  assumes bs: "dev_get_block_size ops dev mod int SECTOR_SIZE = 0" and nm: "lb \<noteq> - 1"
  shows "\<exists>tr dev_r. test_read_blocks ops f blk dev fb lb = Some (tr, Inr dev_r)
     \<and> map fst (reads tr) = map (\<lambda>k. fb + of_nat k) [0..<unat lb + 1 - unat fb]
     \<and> written tr = [] \<and> resets tr = []"
proof -
  from read_blocks_run[OF bs nm, of f blk fb] obtain tr s where
    r: "read_blocks ops f blk dev fb lb = Some (tr, Inr s)"
    and m: "map fst (reads tr) = map (\<lambda>k. fb + of_nat k) [0..<unat lb + 1 - unat fb]"
    and ev: "written tr = []" "resets tr = []"
    by blast
  have "test_read_blocks ops f blk dev fb lb =
      Some (Print_reading_blocks fb lb # tr @ [Print_done], Inr (r_dev s))"
    by (simp add: test_read_blocks_def r)
  then show ?thesis using m ev by simp
qed

lemma main_both_passes:
  assumes g: "block_geometry ops dev"
    and len: "length wblk = nat (dev_get_block_size ops dev)"
    and tw: "test_write a" and tr: "test_read a"
  shows "\<exists>tw dev_w tr_r r.
      main ops f a (Some dev) wblk rblk
        = Some (Print_header # tw @ Dev_reset (fst (dev_reset ops dev_w)) # tr_r, r)
    \<and> map fst (written tw)
        = map (\<lambda>k. first_block (clamp_blocks ops dev a) + of_nat k)
            [0..<unat (last_block (clamp_blocks ops dev a)) + 1
                  - unat (first_block (clamp_blocks ops dev a))]
    \<and> reads tw = [] \<and> resets tw = []
    \<and> written tr_r = [] \<and> resets tr_r = []
    \<and> (fst (dev_reset ops dev_w) \<noteq> 0 \<longrightarrow> tr_r = [] \<and> r = Inl Assert_reset)
    \<and> probe_order Writing
          (Print_header # tw @ Dev_reset (fst (dev_reset ops dev_w)) # tr_r)"
proof -
  let ?a = "clamp_blocks ops dev a"
  let ?fb = "first_block ?a" and ?lb = "last_block ?a"
  have nm: "?lb \<noteq> - 1" using g by (rule clamped_last_not_max)
  have flags: "test_write ?a" "test_read ?a" using tw tr by (simp_all add: clamp_blocks_fields)
  from test_write_blocks_run[OF g len nm, of f ?fb] obtain tw dev_w where
    w: "test_write_blocks ops f wblk dev ?fb ?lb = Some (tw, Inr dev_w)"
    and wr: "written tw = map (\<lambda>k. (?fb + of_nat k,
           pattern f (nat (dev_get_block_size ops dev) div SECTOR_SIZE)
             (shl (?fb + of_nat k) (dev_get_block_order ops dev))))
           [0..<unat ?lb + 1 - unat ?fb]"
    and wq: "reads tw = []" "resets tw = []"
    by blast
  have wi: "map fst (written tw) = map (\<lambda>k. ?fb + of_nat k) [0..<unat ?lb + 1 - unat ?fb]"
    by (simp add: wr comp_def)
  obtain rc dev_s where rs: "dev_reset ops dev_w = (rc, dev_s)" by force
  show ?thesis
  proof (cases "rc \<noteq> 0")
    case True
    have "main ops f a (Some dev) wblk rblk
        = Some (Print_header # tw @ Dev_reset (fst (dev_reset ops dev_w)) # [], Inl Assert_reset)"
      using flags w rs True by (simp add: main_def Let_def reset_between_def)
    moreover have "probe_order Writing
          (Print_header # tw @ Dev_reset (fst (dev_reset ops dev_w)) # [])"
      using wq by (simp add: probe_order_writing)
    ultimately show ?thesis using wi wq by (intro exI[of _ tw] exI[of _ dev_w] exI[of _ "[]"] exI[of _ "Inl Assert_reset"]) simp
  next
    case False
    from test_read_blocks_events[OF nm, of ops f rblk dev_s ?fb] obtain t r where
      r: "test_read_blocks ops f rblk dev_s ?fb ?lb = Some (t, r)"
      and rq: "written t = []" "resets t = []"
      by blast
    show ?thesis
    proof (cases r)
      case (Inl x)
      have "main ops f a (Some dev) wblk rblk
          = Some (Print_header # tw @ Dev_reset (fst (dev_reset ops dev_w)) # t, Inl x)"
        using flags w rs False r Inl by (simp add: main_def Let_def reset_between_def)
      moreover have "probe_order Writing
          (Print_header # tw @ Dev_reset (fst (dev_reset ops dev_w)) # t)"
        using wq rq by (simp add: probe_order_writing probe_order_reading)
      ultimately show ?thesis using wi wq rq rs False
        by (intro exI[of _ tw] exI[of _ dev_w] exI[of _ t] exI[of _ "Inl x"]) simp
    next
      case (Inr dev_r)
      have "main ops f a (Some dev) wblk rblk
          = Some (Print_header # tw @ Dev_reset (fst (dev_reset ops dev_w)) # (t @ [Free_device]),
                  Inr 0)"
        using flags w rs False r Inr by (simp add: main_def Let_def reset_between_def)
      moreover have "probe_order Writing
          (Print_header # tw @ Dev_reset (fst (dev_reset ops dev_w)) # (t @ [Free_device]))"
        using wq rq by (simp add: probe_order_writing probe_order_reading)
      ultimately show ?thesis using wi wq rq rs False
        by (intro exI[of _ tw] exI[of _ dev_w] exI[of _ "t @ [Free_device]"] exI[of _ "Inr 0"]) simp
    qed
  qed
qed

lemma geometry_block_multiple:
  assumes "block_geometry ops dev"
  shows "dev_get_block_size ops dev mod int SECTOR_SIZE = 0"
proof -
  have "0 \<le> dev_get_block_size ops dev" using assms by (simp add: block_geometry_def)
  then have "dev_get_block_size ops dev mod int SECTOR_SIZE
      = int (nat (dev_get_block_size ops dev) mod SECTOR_SIZE)"
    by (simp add: zmod_int)
  then show ?thesis using geometry_size(3)[OF assms] by simp
qed

lemma main_one_pass:
  assumes g: "block_geometry ops dev"
    and len: "length wblk = nat (dev_get_block_size ops dev)"
  shows "\<exists>tr r. main ops f (a\<lparr>test_write := False\<rparr>) (Some dev) wblk rblk = Some (tr, r)
          \<and> resets tr = [] \<and> written tr = []
          \<and> (test_read a \<longrightarrow> r = Inr 0
               \<and> map fst (reads tr)
                  = map (\<lambda>k. first_block (clamp_blocks ops dev a) + of_nat k)
                      [0..<unat (last_block (clamp_blocks ops dev a)) + 1
                            - unat (first_block (clamp_blocks ops dev a))])"
    and "\<exists>tr r. main ops f (a\<lparr>test_read := False\<rparr>) (Some dev) wblk rblk = Some (tr, r)
          \<and> resets tr = [] \<and> reads tr = []
          \<and> (test_write a \<longrightarrow> r = Inr 0
               \<and> map fst (written tr)
                  = map (\<lambda>k. first_block (clamp_blocks ops dev a) + of_nat k)
                      [0..<unat (last_block (clamp_blocks ops dev a)) + 1
                            - unat (first_block (clamp_blocks ops dev a))])"
proof -
  let ?fb = "first_block (clamp_blocks ops dev a)" and ?lb = "last_block (clamp_blocks ops dev a)"
  have nm: "?lb \<noteq> - 1" using g by (rule clamped_last_not_max)
  let ?a1 = "clamp_blocks ops dev (a\<lparr>test_write := False\<rparr>)"
  have a1: "first_block ?a1 = ?fb" "last_block ?a1 = ?lb" "\<not> test_write ?a1"
    "test_read ?a1 = test_read a"
    by (simp_all add: clamp_blocks_fields)
  show "\<exists>tr r. main ops f (a\<lparr>test_write := False\<rparr>) (Some dev) wblk rblk = Some (tr, r)
          \<and> resets tr = [] \<and> written tr = []
          \<and> (test_read a \<longrightarrow> r = Inr 0
               \<and> map fst (reads tr) = map (\<lambda>k. ?fb + of_nat k) [0..<unat ?lb + 1 - unat ?fb])"
  proof (cases "test_read a")
    case True
    from test_read_blocks_run[OF geometry_block_multiple[OF g] nm, of f rblk ?fb]
    obtain t dev_r where
      r: "test_read_blocks ops f rblk dev ?fb ?lb = Some (t, Inr dev_r)"
      and m: "map fst (reads t) = map (\<lambda>k. ?fb + of_nat k) [0..<unat ?lb + 1 - unat ?fb]"
      and q: "written t = []" "resets t = []"
      by blast
    have "main ops f (a\<lparr>test_write := False\<rparr>) (Some dev) wblk rblk
        = Some (Print_header # t @ [Free_device], Inr 0)"
      using a1 True r by (simp add: main_def Let_def reset_between_def)
    then show ?thesis using m q by simp
  next
    case False
    have "main ops f (a\<lparr>test_write := False\<rparr>) (Some dev) wblk rblk
        = Some ([Print_header, Free_device], Inr 0)"
      using a1 False by (simp add: main_def Let_def reset_between_def)
    then show ?thesis using False by simp
  qed
  let ?a2 = "clamp_blocks ops dev (a\<lparr>test_read := False\<rparr>)"
  have a2: "first_block ?a2 = ?fb" "last_block ?a2 = ?lb" "\<not> test_read ?a2"
    "test_write ?a2 = test_write a"
    by (simp_all add: clamp_blocks_fields)
  show "\<exists>tr r. main ops f (a\<lparr>test_read := False\<rparr>) (Some dev) wblk rblk = Some (tr, r)
          \<and> resets tr = [] \<and> reads tr = []
          \<and> (test_write a \<longrightarrow> r = Inr 0
               \<and> map fst (written tr) = map (\<lambda>k. ?fb + of_nat k) [0..<unat ?lb + 1 - unat ?fb])"
  proof (cases "test_write a")
    case True
    from test_write_blocks_run[OF g len nm, of f ?fb] obtain tw dev_w where
      w: "test_write_blocks ops f wblk dev ?fb ?lb = Some (tw, Inr dev_w)"
      and wr: "written tw = map (\<lambda>k. (?fb + of_nat k,
           pattern f (nat (dev_get_block_size ops dev) div SECTOR_SIZE)
             (shl (?fb + of_nat k) (dev_get_block_order ops dev))))
           [0..<unat ?lb + 1 - unat ?fb]"
      and wq: "reads tw = []" "resets tw = []"
      by blast
    have wi: "map fst (written tw) = map (\<lambda>k. ?fb + of_nat k) [0..<unat ?lb + 1 - unat ?fb]"
      by (simp add: wr comp_def)
    have "main ops f (a\<lparr>test_read := False\<rparr>) (Some dev) wblk rblk
        = Some (Print_header # tw @ [Free_device], Inr 0)"
      using a2 True w by (simp add: main_def Let_def reset_between_def)
    then show ?thesis using wi wq by simp
  next
    case False
    have "main ops f (a\<lparr>test_read := False\<rparr>) (Some dev) wblk rblk
        = Some ([Print_header, Free_device], Inr 0)"
      using a2 False by (simp add: main_def Let_def reset_between_def)
    then show ?thesis using False by simp
  qed
qed

lemma parse_opt_W: "parse_opt env (Key CHR ''W'') arg a = Parsed (a\<lparr>test_write := False\<rparr>)"
  by (simp add: parse_opt_def)

lemma parse_opt_R: "parse_opt env (Key CHR ''R'') arg a = Parsed (a\<lparr>test_read := False\<rparr>)"
  by (simp add: parse_opt_def)

lemma flaky_clamp:
  "first_block (clamp_blocks flaky_device 0 (default_args 0)) = 0"
  "last_block (clamp_blocks flaky_device 0 (default_args 0)) = 4"
  by (simp_all add: clamp_blocks_fields default_args_def flaky_device_def shr_def min_def
      drop_bit_eq_div word_le_nat_alt unsigned_minus_1_eq_mask mask_eq_exp_minus_1)

lemma pattern_head:
  assumes "0 < n"
  shows "load_u64 (pattern f n e) 0 = e"
proof -
  obtain m where "n = Suc m" using assms by (cases n) auto
  then show ?thesis by (simp add: pattern_Suc load_u64_stamp_offset)
qed

lemma geometry_sectors:
  assumes "block_geometry ops dev"
  shows "0 < nat (dev_get_block_size ops dev) div SECTOR_SIZE"
proof -
  have "nat (dev_get_block_size ops dev) mod SECTOR_SIZE = 0"
    and "0 < nat (dev_get_block_size ops dev)"
    using geometry_size[OF assms] by simp_all
  then show ?thesis by (auto simp: SECTOR_SIZE_def)
qed

lemma range_fits: "unat (fb::u64) + (unat (lb::u64) + 1 - unat fb) \<le> 2 ^ 64"
proof -
  have "unat fb < 2 ^ 64" "unat lb < 2 ^ 64"
    using unsigned_less[of fb, where 'a=nat] unsigned_less[of lb, where 'a=nat] by simp_all
  then show ?thesis by simp
qed

text \<open>The two passes on the sample device, turn by turn.\<close>

lemma flaky_ops:
  "dev_write_block flaky_device d buf i = (if i = 1 then 1 else 0, d + 1)"
  "dev_get_block_order flaky_device d = 9"
  "dev_get_block_size flaky_device d = 512"
  "dev_read_block flaky_device d buf i = (if i = 2 then 1 else 0, buf, d + 1)"
  by (simp_all add: flaky_device_def)

lemma flaky_write_run:
  assumes len: "length blk = 512"
  shows "\<exists>s. write_blocks flaky_device lcg blk 0 0 3 =
      Some ([Dev_write_block 0 (pattern lcg 1 0) 0,
             Dev_write_block 1 (pattern lcg 1 512) 1, Warn_failed_writing 1,
             Dev_write_block 2 (pattern lcg 1 1024) 0,
             Dev_write_block 3 (pattern lcg 1 1536) 0], Inr s)"
proof -
  let ?s = "\<lparr>w_i = 0, w_sector_offset = 0, w_stamp_blk = blk, w_dev = 0::nat\<rparr>"
  have loop: "write_blocks flaky_device lcg blk 0 0 3 =
     Some (fst (turns (write_blocks_body flaky_device lcg 512) (Suc (Suc (Suc (Suc 0)))) ?s),
           snd (turns (write_blocks_body flaky_device lcg 512) (Suc (Suc (Suc (Suc 0)))) ?s))"
    using write_loop_turns[where n="Suc (Suc (Suc (Suc 0)))" and lb=3 and s="?s"
        and ops=flaky_device and f=lcg and bs=512 and tr="[]"]
    by (simp add: write_blocks_def flaky_ops shl_def)
  have body: "write_blocks_body flaky_device lcg 512 s =
     (Dev_write_block (w_i s) (pattern lcg 1 (w_sector_offset s)) (if w_i s = 1 then 1 else 0)
        # (if w_i s = 1 then [Warn_failed_writing (w_i s)] else []),
      Inr \<lparr>w_i = w_i s + 1, w_sector_offset = w_sector_offset s + 512,
           w_stamp_blk = pattern lcg 1 (w_sector_offset s), w_dev = w_dev s + 1\<rparr>)"
    if "length (w_stamp_blk s) = 512" for s :: "nat write_state"
    using write_body_pattern[of 512 512 s flaky_device lcg] that
    by (simp add: size_t_of_int_def SECTOR_SIZE_def flaky_ops Let_def)
  have "\<exists>s. turns (write_blocks_body flaky_device lcg 512) (Suc (Suc (Suc (Suc 0)))) ?s =
      ([Dev_write_block 0 (pattern lcg 1 0) 0,
        Dev_write_block 1 (pattern lcg 1 512) 1, Warn_failed_writing 1,
        Dev_write_block 2 (pattern lcg 1 1024) 0,
        Dev_write_block 3 (pattern lcg 1 1536) 0], Inr s)"
    using len by (simp add: body)
  then show ?thesis using loop by auto
qed


lemma flaky_read_run:
  "\<exists>s. read_blocks flaky_device f blk 0 0 3 =
      Some (Dev_read_block 0 blk 0 # map Printed (validate_sectors f 0 blk 0 512)
            @ Dev_read_block 1 blk 0 # map Printed (validate_sectors f 512 blk 0 512)
            @ Dev_read_block 2 blk 1 # Warn_failed_reading 2
            # Dev_read_block 3 blk 0 # map Printed (validate_sectors f 1536 blk 0 512),
            Inr s)"
proof -
  let ?s = "\<lparr>r_i = 0, r_expected_sector_offset = 0, r_probe_blk = blk, r_dev = 0::nat\<rparr>"
  have loop: "read_blocks flaky_device f blk 0 0 3 =
     Some (fst (turns (read_blocks_body flaky_device f 512) (Suc (Suc (Suc (Suc 0)))) ?s),
           snd (turns (read_blocks_body flaky_device f 512) (Suc (Suc (Suc (Suc 0)))) ?s))"
    using read_loop_turns[where n="Suc (Suc (Suc (Suc 0)))" and lb=3 and s="?s"
        and ops=flaky_device and f=f and bs=512 and tr="[]"]
    by (simp add: read_blocks_def flaky_ops shl_def)
  have body: "read_blocks_body flaky_device f 512 s =
     (Dev_read_block (r_i s) (r_probe_blk s) (if r_i s = 2 then 1 else 0)
        # (if r_i s = 2 then [Warn_failed_reading (r_i s)]
           else map Printed
                  (validate_sectors f (r_expected_sector_offset s) (r_probe_blk s) 0 512)),
      Inr \<lparr>r_i = r_i s + 1, r_expected_sector_offset = r_expected_sector_offset s + 512,
           r_probe_blk = r_probe_blk s, r_dev = r_dev s + 1\<rparr>)"
    for s :: "nat read_state"
    using read_body_report[of 512 flaky_device f s]
    by (simp add: SECTOR_SIZE_def flaky_ops Let_def read_report_def)
  have "\<exists>s. turns (read_blocks_body flaky_device f 512) (Suc (Suc (Suc (Suc 0)))) ?s =
      (Dev_read_block 0 blk 0 # map Printed (validate_sectors f 0 blk 0 512)
            @ Dev_read_block 1 blk 0 # map Printed (validate_sectors f 512 blk 0 512)
            @ Dev_read_block 2 blk 1 # Warn_failed_reading 2
            # Dev_read_block 3 blk 0 # map Printed (validate_sectors f 1536 blk 0 512),
       Inr s)"
    by (simp add: body)
  then show ?thesis using loop by auto
qed

section \<open>The write pass\<close>

text \<open>
  C6. \<^verbatim>\<open>fill_buffer\<close> with a size that is a positive multiple of 512 returns the start
  offset plus the size. On a device whose block size is two to its block order, with a
  buffer of one block, the write pass returns, it submits the blocks in strictly ascending
  order, and the buffer submitted for block \<open>i\<close> is the pattern for the offset
  \<open>i << block_order\<close>, which is the offset its first sector carries: threading the
  return value of \<^verbatim>\<open>fill_buffer\<close> gives what recomputing the shift would.
\<close>

theorem write_pass_ascending_patterns:
  assumes g: "block_geometry ops dev"
    and len: "length stamp_blk = nat (dev_get_block_size ops dev)"
    and nm: "lb \<noteq> - 1"
    and sz: "0 < sz" "sz mod SECTOR_SIZE = 0" "sz \<le> length buf"
  shows "(\<exists>buf'. fill_buffer f buf sz offset = Inr (buf', offset + of_nat sz))
    \<and> (\<exists>tr s. write_blocks ops f stamp_blk dev fb lb = Some (tr, Inr s)
          \<and> sorted_wrt (<) (map fst (written tr))
          \<and> written tr = map (\<lambda>k. (fb + of_nat k,
                pattern f (nat (dev_get_block_size ops dev) div SECTOR_SIZE)
                  (shl (fb + of_nat k) (dev_get_block_order ops dev))))
                [0..<unat lb + 1 - unat fb])
    \<and> load_u64 (pattern f (nat (dev_get_block_size ops dev) div SECTOR_SIZE) e) 0 = e"
proof -
  have fill: "\<exists>buf'. fill_buffer f buf sz offset = Inr (buf', offset + of_nat sz)"
    using fill_buffer_pattern[OF sz, of f offset] by blast
  from write_blocks_run[OF g len nm, of f fb] obtain tr s where
    w: "write_blocks ops f stamp_blk dev fb lb = Some (tr, Inr s)"
    and wr: "written tr = map (\<lambda>k. (fb + of_nat k,
           pattern f (nat (dev_get_block_size ops dev) div SECTOR_SIZE)
             (shl (fb + of_nat k) (dev_get_block_order ops dev))))
           [0..<unat lb + 1 - unat fb]"
    by blast
  have "map fst (written tr) = map (\<lambda>k. fb + of_nat k) [0..<unat lb + 1 - unat fb]"
    by (simp add: wr comp_def)
  then have "sorted_wrt (<) (map fst (written tr))"
    using ascending_indices[OF range_fits, of fb lb] by simp
  then show ?thesis
    using fill w wr pattern_head[OF geometry_sectors[OF g]] by blast
qed

theorem write_pass_ascending_patterns_witness:
  "block_geometry flaky_device 0
   \<and> length (replicate 512 (0::u8)) = nat (dev_get_block_size flaky_device 0)
   \<and> (3::u64) \<noteq> - 1
   \<and> 0 < (1024::nat) \<and> (1024::nat) mod SECTOR_SIZE = 0
   \<and> 1024 \<le> length (replicate 1024 (0::u8))
   \<and> (\<exists>buf'. fill_buffer lcg (replicate 1024 0) 1024 4096 = Inr (buf', 4096 + of_nat 1024))
   \<and> (\<exists>tr s. write_blocks flaky_device lcg (replicate 512 0) 0 0 3 = Some (tr, Inr s)
          \<and> sorted_wrt (<) (map fst (written tr))
          \<and> written tr = map (\<lambda>k. (0 + of_nat k,
                pattern lcg (nat (dev_get_block_size flaky_device 0) div SECTOR_SIZE)
                  (shl (0 + of_nat k) (dev_get_block_order flaky_device 0))))
                [0..<unat (3::u64) + 1 - unat (0::u64)])"
proof -
  have h: "block_geometry flaky_device 0"
    "length (replicate 512 (0::u8)) = nat (dev_get_block_size flaky_device 0)"
    "(3::u64) \<noteq> - 1"
    "0 < (1024::nat)" "(1024::nat) mod SECTOR_SIZE = 0"
    "1024 \<le> length (replicate 1024 (0::u8))"
    by (simp_all add: block_geometry_def flaky_device_def SECTOR_SIZE_def)
  from write_pass_ascending_patterns[OF h, of lcg 4096 0] h
  show ?thesis by blast
qed

text \<open>
  C8. Whatever \<^verbatim>\<open>dev_write_block\<close> returns, the write pass goes through the whole range and
  returns: every block from the first to the last is submitted, each with the pattern of
  its own offset, and the blocks warned about are exactly those whose write failed.
\<close>

theorem write_failure_resilience:
  assumes g: "block_geometry ops dev"
    and len: "length stamp_blk = nat (dev_get_block_size ops dev)"
    and nm: "lb \<noteq> - 1"
  shows "\<exists>tr s. write_blocks ops f stamp_blk dev fb lb = Some (tr, Inr s)
     \<and> w_i s = fb + of_nat (unat lb + 1 - unat fb)
     \<and> write_warnings tr = write_failures tr
     \<and> written tr = map (\<lambda>k. (fb + of_nat k,
           pattern f (nat (dev_get_block_size ops dev) div SECTOR_SIZE)
             (shl (fb + of_nat k) (dev_get_block_order ops dev))))
           [0..<unat lb + 1 - unat fb]"
  using write_blocks_run[OF g len nm, of f fb] by blast

theorem write_failure_resilience_witness:
  "block_geometry flaky_device 0
   \<and> length (replicate 512 (0::u8)) = nat (dev_get_block_size flaky_device 0)
   \<and> (3::u64) \<noteq> - 1
   \<and> (\<exists>tr s. write_blocks flaky_device lcg (replicate 512 0) 0 0 3 = Some (tr, Inr s)
     \<and> tr = [Dev_write_block 0 (pattern lcg 1 0) 0,
             Dev_write_block 1 (pattern lcg 1 512) 1, Warn_failed_writing 1,
             Dev_write_block 2 (pattern lcg 1 1024) 0,
             Dev_write_block 3 (pattern lcg 1 1536) 0]
     \<and> w_i s = 4
     \<and> write_warnings tr = write_failures tr)"
proof -
  have h: "block_geometry flaky_device 0"
    "length (replicate 512 (0::u8)) = nat (dev_get_block_size flaky_device 0)"
    "(3::u64) \<noteq> - 1"
    by (simp_all add: block_geometry_def flaky_device_def)
  from write_failure_resilience[OF h, of lcg 0] obtain tr s where
    run: "write_blocks flaky_device lcg (replicate 512 0) 0 0 3 = Some (tr, Inr s)"
    and i: "w_i s = 0 + of_nat (unat (3::u64) + 1 - unat (0::u64))"
    and w: "write_warnings tr = write_failures tr"
    by (elim exE conjE) (rule that; assumption)
  from flaky_write_run[of "replicate 512 0"] obtain s' where
    "write_blocks flaky_device lcg (replicate 512 0) 0 0 3 =
      Some ([Dev_write_block 0 (pattern lcg 1 0) 0,
             Dev_write_block 1 (pattern lcg 1 512) 1, Warn_failed_writing 1,
             Dev_write_block 2 (pattern lcg 1 1024) 0,
             Dev_write_block 3 (pattern lcg 1 1536) 0], Inr s')"
    by auto
  then have tr: "tr = [Dev_write_block 0 (pattern lcg 1 0) 0,
             Dev_write_block 1 (pattern lcg 1 512) 1, Warn_failed_writing 1,
             Dev_write_block 2 (pattern lcg 1 1024) 0,
             Dev_write_block 3 (pattern lcg 1 1536) 0]"
    using run by simp
  have "w_i s = 4" using i by simp
  then show ?thesis using h run tr w by (intro conjI exI) assumption+
qed

section \<open>The read pass\<close>

text \<open>
  C5. In the read pass over a range, on a device whose block size is a multiple of the
  sector size, every block from the first to the last is read, in order; a read that
  succeeds is followed by the diagnostics of its sectors against the expected offset
  \<open>(first_block << block_order) + (i - first_block) * block_size\<close>, a read that fails by
  its warning and nothing else, and the pass goes on: the expected offset starts at
  \<open>first_block << block_order\<close> and grows by the block size with every block, read or
  not.
\<close>

theorem read_pass_offsets:
  assumes bs: "dev_get_block_size ops dev mod int SECTOR_SIZE = 0" and nm: "lb \<noteq> - 1"
  shows "\<exists>tr s. read_blocks ops f blk dev fb lb = Some (tr, Inr s)
     \<and> map fst (reads tr) = map (\<lambda>k. fb + of_nat k) [0..<unat lb + 1 - unat fb]
     \<and> tr = concat (map (read_report f (dev_get_block_size ops dev)
                            (shl fb (dev_get_block_order ops dev)) fb) (reads tr))
     \<and> r_expected_sector_offset s =
         shl fb (dev_get_block_order ops dev)
           + of_nat (unat lb + 1 - unat fb) * of_int (dev_get_block_size ops dev)"
  using read_blocks_run[OF bs nm, of f blk fb] by blast

theorem read_pass_offsets_witness:
  "dev_get_block_size flaky_device 0 mod int SECTOR_SIZE = 0 \<and> (3::u64) \<noteq> - 1
   \<and> (\<exists>tr s. read_blocks flaky_device lcg (replicate 512 0) 0 0 3 = Some (tr, Inr s)
     \<and> tr = Dev_read_block 0 (replicate 512 0) 0
              # map Printed (validate_sectors lcg 0 (replicate 512 0) 0 512)
            @ Dev_read_block 1 (replicate 512 0) 0
              # map Printed (validate_sectors lcg 512 (replicate 512 0) 0 512)
            @ Dev_read_block 2 (replicate 512 0) 1 # Warn_failed_reading 2
            # Dev_read_block 3 (replicate 512 0) 0
              # map Printed (validate_sectors lcg 1536 (replicate 512 0) 0 512)
     \<and> r_expected_sector_offset s = 2048)"
proof -
  have h: "dev_get_block_size flaky_device 0 mod int SECTOR_SIZE = 0" "(3::u64) \<noteq> - 1"
    by (simp_all add: flaky_device_def SECTOR_SIZE_def)
  from read_pass_offsets[OF h, of lcg "replicate 512 0" 0] obtain tr s where
    run: "read_blocks flaky_device lcg (replicate 512 0) 0 0 3 = Some (tr, Inr s)"
    and e: "r_expected_sector_offset s =
         shl 0 (dev_get_block_order flaky_device 0)
           + of_nat (unat (3::u64) + 1 - unat (0::u64))
               * of_int (dev_get_block_size flaky_device 0)"
    by (elim exE conjE) (rule that; assumption)
  from flaky_read_run[of lcg "replicate 512 0"] obtain s' where
    "read_blocks flaky_device lcg (replicate 512 0) 0 0 3 =
      Some (Dev_read_block 0 (replicate 512 0) 0
              # map Printed (validate_sectors lcg 0 (replicate 512 0) 0 512)
            @ Dev_read_block 1 (replicate 512 0) 0
              # map Printed (validate_sectors lcg 512 (replicate 512 0) 0 512)
            @ Dev_read_block 2 (replicate 512 0) 1 # Warn_failed_reading 2
            # Dev_read_block 3 (replicate 512 0) 0
              # map Printed (validate_sectors lcg 1536 (replicate 512 0) 0 512), Inr s')"
    by auto
  then have tr: "tr = Dev_read_block 0 (replicate 512 0) 0
              # map Printed (validate_sectors lcg 0 (replicate 512 0) 0 512)
            @ Dev_read_block 1 (replicate 512 0) 0
              # map Printed (validate_sectors lcg 512 (replicate 512 0) 0 512)
            @ Dev_read_block 2 (replicate 512 0) 1 # Warn_failed_reading 2
            # Dev_read_block 3 (replicate 512 0) 0
              # map Printed (validate_sectors lcg 1536 (replicate 512 0) 0 512)"
    using run by simp
  have "r_expected_sector_offset s = 2048"
    using e by (simp add: flaky_ops shl_def)
  then show ?thesis using h run tr by (intro conjI exI) assumption+
qed

section \<open>The probe\<close>

text \<open>
  C9. With both passes enabled, \<^verbatim>\<open>main\<close> returns and its events are: the writes of the
  whole range, with no read and no reset among them, then one reset, then events with no
  write and no reset among them. When the reset fails nothing follows it and the program
  ends on the failed assertion.
\<close>

theorem writes_then_reset_then_reads:
  assumes g: "block_geometry ops dev"
    and len: "length wblk = nat (dev_get_block_size ops dev)"
    and tw: "test_write a" and tr: "test_read a"
  shows "\<exists>tw dev_w tr_r r.
      main ops f a (Some dev) wblk rblk
        = Some (Print_header # tw @ Dev_reset (fst (dev_reset ops dev_w)) # tr_r, r)
    \<and> map fst (written tw)
        = map (\<lambda>k. first_block (clamp_blocks ops dev a) + of_nat k)
            [0..<unat (last_block (clamp_blocks ops dev a)) + 1
                  - unat (first_block (clamp_blocks ops dev a))]
    \<and> reads tw = [] \<and> resets tw = []
    \<and> written tr_r = [] \<and> resets tr_r = []
    \<and> (fst (dev_reset ops dev_w) \<noteq> 0 \<longrightarrow> tr_r = [] \<and> r = Inl Assert_reset)
    \<and> probe_order Writing
          (Print_header # tw @ Dev_reset (fst (dev_reset ops dev_w)) # tr_r)"
  using main_both_passes[OF g len tw tr] .

theorem writes_then_reset_then_reads_witness:
  "block_geometry stuck_device 0
   \<and> length (replicate 512 (0::u8)) = nat (dev_get_block_size stuck_device 0)
   \<and> test_write (default_args 0) \<and> test_read (default_args 0)
   \<and> (\<exists>tw. main stuck_device lcg (default_args 0) (Some 0) (replicate 512 0) (replicate 512 0)
              = Some (Print_header # tw @ [Dev_reset 1], Inl Assert_reset)
          \<and> reads tw = [] \<and> resets tw = [])"
proof -
  have h: "block_geometry stuck_device 0"
    "length (replicate 512 (0::u8)) = nat (dev_get_block_size stuck_device 0)"
    "test_write (default_args 0)" "test_read (default_args 0)"
    by (simp_all add: block_geometry_def stuck_device_def flaky_device_def default_args_def)
  from writes_then_reset_then_reads[OF h, of lcg "replicate 512 0"]
  obtain tw dev_w tr_r r where
    m: "main stuck_device lcg (default_args 0) (Some 0) (replicate 512 0) (replicate 512 0)
        = Some (Print_header # tw @ Dev_reset (fst (dev_reset stuck_device dev_w)) # tr_r, r)"
    and q: "reads tw = []" "resets tw = []"
    and f: "fst (dev_reset stuck_device dev_w) \<noteq> 0 \<longrightarrow> tr_r = [] \<and> r = Inl Assert_reset"
    by blast
  have rc: "fst (dev_reset stuck_device dev_w) = 1" by (simp add: stuck_device_def)
  then have "tr_r = []" "r = Inl Assert_reset" using f by simp_all
  then show ?thesis using h m q rc by simp
qed

text \<open>
  C10. The options \<^verbatim>\<open>-W\<close> and \<^verbatim>\<open>-R\<close> clear \<^verbatim>\<open>test_write\<close> and \<^verbatim>\<open>test_read\<close>. With either
  flag cleared \<^verbatim>\<open>main\<close> issues no reset: without the write pass it writes nothing and, if
  the read pass is enabled, reads the whole range; without the read pass it reads nothing
  and, if the write pass is enabled, writes the whole range.
\<close>

theorem reset_only_with_both_passes:
  assumes g: "block_geometry ops dev"
    and len: "length wblk = nat (dev_get_block_size ops dev)"
  shows "parse_opt env (Key CHR ''W'') arg a = Parsed (a\<lparr>test_write := False\<rparr>)
    \<and> parse_opt env (Key CHR ''R'') arg a = Parsed (a\<lparr>test_read := False\<rparr>)
    \<and> (\<exists>tr r. main ops f (a\<lparr>test_write := False\<rparr>) (Some dev) wblk rblk = Some (tr, r)
          \<and> resets tr = [] \<and> written tr = []
          \<and> (test_read a \<longrightarrow> r = Inr 0
               \<and> map fst (reads tr)
                  = map (\<lambda>k. first_block (clamp_blocks ops dev a) + of_nat k)
                      [0..<unat (last_block (clamp_blocks ops dev a)) + 1
                            - unat (first_block (clamp_blocks ops dev a))]))
    \<and> (\<exists>tr r. main ops f (a\<lparr>test_read := False\<rparr>) (Some dev) wblk rblk = Some (tr, r)
          \<and> resets tr = [] \<and> reads tr = []
          \<and> (test_write a \<longrightarrow> r = Inr 0
               \<and> map fst (written tr)
                  = map (\<lambda>k. first_block (clamp_blocks ops dev a) + of_nat k)
                      [0..<unat (last_block (clamp_blocks ops dev a)) + 1
                            - unat (first_block (clamp_blocks ops dev a))]))"
  using main_one_pass[OF g len, of f a rblk] parse_opt_W[of env arg a] parse_opt_R[of env arg a]
  by blast

theorem reset_only_with_both_passes_witness:
  "block_geometry flaky_device 0
   \<and> length (replicate 512 (0::u8)) = nat (dev_get_block_size flaky_device 0)
   \<and> test_read (default_args 0) \<and> test_write (default_args 0)
   \<and> (\<exists>tr. main flaky_device lcg ((default_args 0)\<lparr>test_write := False\<rparr>) (Some 0)
              (replicate 512 0) (replicate 512 0) = Some (tr, Inr 0)
          \<and> resets tr = [] \<and> written tr = []
          \<and> map fst (reads tr) = [0, 1, 2, 3, 4])
   \<and> (\<exists>tr. main flaky_device lcg ((default_args 0)\<lparr>test_read := False\<rparr>) (Some 0)
              (replicate 512 0) (replicate 512 0) = Some (tr, Inr 0)
          \<and> resets tr = [] \<and> reads tr = []
          \<and> map fst (written tr) = [0, 1, 2, 3, 4])"
proof -
  have h: "block_geometry flaky_device 0"
    "length (replicate 512 (0::u8)) = nat (dev_get_block_size flaky_device 0)"
    by (simp_all add: block_geometry_def flaky_device_def)
  have t: "test_read (default_args 0)" "test_write (default_args 0)"
    by (simp_all add: default_args_def)
  have five: "map (\<lambda>k. (0::u64) + of_nat k) [0..<unat (4::u64) + 1 - unat (0::u64)]
      = [0, 1, 2, 3, 4]"
    by (simp add: upt_conv_Cons)
  note run = reset_only_with_both_passes[OF h, of undefined undefined "default_args 0" lcg
      "replicate 512 0", unfolded flaky_clamp five]
  from run t obtain tr1 tr2 where
    "main flaky_device lcg ((default_args 0)\<lparr>test_write := False\<rparr>) (Some 0)
       (replicate 512 0) (replicate 512 0) = Some (tr1, Inr 0)"
    "resets tr1 = []" "written tr1 = []" "map fst (reads tr1) = [0, 1, 2, 3, 4]"
    "main flaky_device lcg ((default_args 0)\<lparr>test_read := False\<rparr>) (Some 0)
       (replicate 512 0) (replicate 512 0) = Some (tr2, Inr 0)"
    "resets tr2 = []" "reads tr2 = []" "map fst (written tr2) = [0, 1, 2, 3, 4]"
    by auto
  then show ?thesis using h t by auto
qed

text \<open>
  C4. \<^verbatim>\<open>main\<close> clamps \<^verbatim>\<open>last_block\<close> to \<open>size_byte >> block_order\<close>, the number of blocks,
  not to the index of the last block: on a device of four blocks (indices 0 to 3) the
  default range ends at block 4, and the write pass submits block 4.
\<close>

theorem clamp_keeps_block_count:
  "last_block (clamp_blocks ops dev a)
     = min (last_block a) (shr (dev_get_size_byte ops dev) (dev_get_block_order ops dev))
   \<and> shr (dev_get_size_byte flaky_device 0) (dev_get_block_order flaky_device 0) = 4
   \<and> last_block (clamp_blocks flaky_device 0 (default_args 0)) = 4
   \<and> (\<exists>tr r. main flaky_device lcg (default_args 0) (Some 0) (replicate 512 0) (replicate 512 0)
                = Some (tr, r)
          \<and> map fst (written tr) = [0, 1, 2, 3, 4])"
proof -
  have h: "block_geometry flaky_device 0"
    "length (replicate 512 (0::u8)) = nat (dev_get_block_size flaky_device 0)"
    "test_write (default_args 0)" "test_read (default_args 0)"
    by (simp_all add: block_geometry_def flaky_device_def default_args_def)
  have five: "map (\<lambda>k. (0::u64) + of_nat k) [0..<unat (4::u64) + 1 - unat (0::u64)]
      = [0, 1, 2, 3, 4]"
    by (simp add: upt_conv_Cons)
  from main_both_passes[OF h, of lcg "replicate 512 0", unfolded flaky_clamp five]
  obtain tw dev_w tr_r r where
    m: "main flaky_device lcg (default_args 0) (Some 0) (replicate 512 0) (replicate 512 0)
        = Some (Print_header # tw @ Dev_reset (fst (dev_reset flaky_device dev_w)) # tr_r, r)"
    and w: "map fst (written tw) = [0, 1, 2, 3, 4]"
    and q: "written tr_r = []"
    by (elim exE conjE) (rule that; assumption)
  have wr: "map fst (written (Print_header # tw @ Dev_reset (fst (dev_reset flaky_device dev_w)) # tr_r))
      = [0, 1, 2, 3, 4]"
    using w q by simp
  have ex: "\<exists>tr r. main flaky_device lcg (default_args 0) (Some 0) (replicate 512 0)
                (replicate 512 0) = Some (tr, r)
          \<and> map fst (written tr) = [0, 1, 2, 3, 4]"
    by (intro exI conjI) (rule m, rule wr)
  have v: "shr (dev_get_size_byte flaky_device 0) (dev_get_block_order flaky_device 0) = 4"
    by (simp add: flaky_device_def shr_def drop_bit_eq_div)
  show ?thesis
    by (intro conjI) (rule clamp_blocks_fields(2), rule v, rule flaky_clamp(2), rule ex)
qed

end
